theory Spec2Isabelle
  imports Complex_Main
begin

section \<open>JavaScript values\<close>

text \<open>
  The values that the utilities of \<^verbatim>\<open>src/utils.js\<close> and
  \<^verbatim>\<open>src/components/legacyComponents.js\<close> inspect at run time.  A number is opaque
  to every function modelled here except for its truthiness, so numbers are integers.  A
  function value is a reference; what calling it does is given by the environment of the
  poller models below.  An object is the list of its own enumerable string-keyed
  properties; the prototype chain is not modelled, and keys are listed in the order of
  the list.
\<close>

datatype jsval =
    JUndefined
  | JNull
  | JBool bool
  | JNum int
  | JStr string
  | JFun nat
  | JArr "jsval list"
  | JObj "(string \<times> jsval) list"

text \<open>
  \<open>TypeError\<close> is what JavaScript raises when a property of \<open>null\<close> or \<open>undefined\<close> is
  read, when \<open>Object.keys\<close> is applied to them, and (module code is strict) when a
  property is written on a primitive.  \<open>OutsideModel\<close> marks the two kinds of top-level
  merge target, an array and a function, whose property storage \<open>jsval\<close> does not
  represent; the recursion of \<open>mergeObjects\<close> never reaches one, since \<open>isObject\<close>
  admits only \<open>null\<close> and plain objects.
\<close>

datatype error = TypeError | OutsideModel

definition typeof :: "jsval \<Rightarrow> string" where
  "typeof v = (case v of
      JUndefined \<Rightarrow> ''undefined''
    | JNull \<Rightarrow> ''object''
    | JBool _ \<Rightarrow> ''boolean''
    | JNum _ \<Rightarrow> ''number''
    | JStr _ \<Rightarrow> ''string''
    | JFun _ \<Rightarrow> ''function''
    | JArr _ \<Rightarrow> ''object''
    | JObj _ \<Rightarrow> ''object'')"

definition instanceofArray :: "jsval \<Rightarrow> bool" where
  "instanceofArray v = (case v of JArr _ \<Rightarrow> True | _ \<Rightarrow> False)"

text \<open>
Truthiness, as \<open>!expr\<close> and \<open>if (result)\<close> test it.
\<close>

definition truthy :: "jsval \<Rightarrow> bool" where
  "truthy v = (case v of
      JUndefined \<Rightarrow> False
    | JNull \<Rightarrow> False
    | JBool b \<Rightarrow> b
    | JNum n \<Rightarrow> n \<noteq> 0
    | JStr s \<Rightarrow> s \<noteq> []
    | JFun _ \<Rightarrow> True
    | JArr _ \<Rightarrow> True
    | JObj _ \<Rightarrow> True)"

text \<open>
Array and string indices as property keys: \<open>Object.keys([7, 8])\<close> is \<open>["0", "1"]\<close>.
\<close>

fun digit_char :: "nat \<Rightarrow> char" where
  "digit_char n = char_of (48 + n)"

fun index_key :: "nat \<Rightarrow> string" where
  "index_key n = (if n < 10 then [digit_char n] else index_key (n div 10) @ [digit_char (n mod 10)])"

fun lookup :: "(string \<times> jsval) list \<Rightarrow> string \<Rightarrow> jsval option" where
  "lookup [] k = None"
| "lookup ((k', v) # kvs) k = (if k' = k then Some v else lookup kvs k)"

fun assign :: "(string \<times> jsval) list \<Rightarrow> string \<Rightarrow> jsval \<Rightarrow> (string \<times> jsval) list" where
  "assign [] k v = [(k, v)]"
| "assign ((k', v') # kvs) k v = (if k' = k then (k, v) # kvs else (k', v') # assign kvs k v)"

text \<open>
  \<open>own_props\<close> keeps the first binding of every key, so that no key is listed twice.
  \<open>own_entries source\<close> pairs every key of \<open>Object.keys(source)\<close> with \<open>source[key]\<close>:
  \<open>Object.keys\<close> raises on \<open>null\<close> and \<open>undefined\<close>, and a number, a boolean or a
  function has no own enumerable key.
\<close>

fun own_props :: "(string \<times> jsval) list \<Rightarrow> (string \<times> jsval) list" where
  "own_props [] = []"
| "own_props ((k, v) # kvs) = (k, v) # own_props (filter (\<lambda>p. fst p \<noteq> k) kvs)"

definition own_entries :: "jsval \<Rightarrow> error + (string \<times> jsval) list" where
  "own_entries source = (case source of
      JUndefined \<Rightarrow> Inl TypeError
    | JNull \<Rightarrow> Inl TypeError
    | JBool _ \<Rightarrow> Inr []
    | JNum _ \<Rightarrow> Inr []
    | JFun _ \<Rightarrow> Inr []
    | JStr s \<Rightarrow> Inr (zip (map index_key [0..<length s]) (map (\<lambda>c. JStr [c]) s))
    | JArr xs \<Rightarrow> Inr (zip (map index_key [0..<length xs]) xs)
    | JObj kvs \<Rightarrow> Inr (own_props kvs))"

text \<open>
  \<open>const isObject = typeof targetValue === 'object' && !(targetValue instanceof Array)\<close>,
  and the reading and writing of \<open>merged[key]\<close>.
\<close>

definition isObject :: "jsval \<Rightarrow> bool" where
  "isObject targetValue \<longleftrightarrow> typeof targetValue = ''object'' \<and> \<not> instanceofArray targetValue"

definition get_prop :: "jsval \<Rightarrow> string \<Rightarrow> error + jsval" where
  "get_prop merged key = (case merged of
      JObj kvs \<Rightarrow> (case lookup kvs key of Some v \<Rightarrow> Inr v | None \<Rightarrow> Inr JUndefined)
    | JNull \<Rightarrow> Inl TypeError
    | JUndefined \<Rightarrow> Inl TypeError
    | JBool _ \<Rightarrow> Inr JUndefined
    | JNum _ \<Rightarrow> Inr JUndefined
    | JStr _ \<Rightarrow> Inr JUndefined
    | JFun _ \<Rightarrow> Inl OutsideModel
    | JArr _ \<Rightarrow> Inl OutsideModel)"

definition set_prop :: "jsval \<Rightarrow> string \<Rightarrow> jsval \<Rightarrow> error + jsval" where
  "set_prop merged key v = (case merged of
      JObj kvs \<Rightarrow> Inr (JObj (assign kvs key v))
    | JFun _ \<Rightarrow> Inl OutsideModel
    | JArr _ \<Rightarrow> Inl OutsideModel
    | _ \<Rightarrow> Inl TypeError)"

section \<open>Object Merge\<close>

text \<open>
  \<open>mergeObjects(target, source)\<close>; its two copies in the sources are identical.
  \<open>forEach_key\<close> is the body of \<open>Object.keys(source).forEach\<close>, run over the keys that
  remain, on the object \<open>merged\<close> as it stands (\<open>merged\<close> is \<open>target\<close> itself, updated in
  place).  The recursion ends because the target of a recursive call is a property value
  of the current target; \<open>vsize\<close> and \<open>entries_size\<close> measure that.
\<close>

fun vsize :: "jsval \<Rightarrow> nat" where
  "vsize (JStr s) = max 1 (length s)"
| "vsize (JArr xs) = Suc (sum_list (map vsize xs))"
| "vsize (JObj kvs) = Suc (sum_list (map (\<lambda>p. vsize (snd p)) kvs))"
| "vsize _ = 1"

definition entries_size :: "(string \<times> jsval) list \<Rightarrow> nat" where
  "entries_size ents = sum_list (map (\<lambda>p. vsize (snd p)) ents)"

function mergeObjects :: "jsval \<Rightarrow> jsval \<Rightarrow> error + jsval"
  and forEach_key :: "jsval \<Rightarrow> (string \<times> jsval) list \<Rightarrow> error + jsval" where
  "mergeObjects target source =
     (case own_entries source of
        Inl e \<Rightarrow> Inl e
      | Inr entries \<Rightarrow> forEach_key target entries)"
| "forEach_key merged [] = Inr merged"
| "forEach_key merged ((key, sourceValue) # rest) =
     (case get_prop merged key of
        Inl e \<Rightarrow> Inl e
      | Inr targetValue \<Rightarrow>
          if isObject targetValue then
            (case mergeObjects targetValue sourceValue of
               Inl e \<Rightarrow> Inl e
             | Inr r \<Rightarrow>
                 (case set_prop merged key r of
                    Inl e \<Rightarrow> Inl e
                  | Inr merged' \<Rightarrow> forEach_key merged' rest))
          else
            (case set_prop merged key sourceValue of
               Inl e \<Rightarrow> Inl e
             | Inr merged' \<Rightarrow> forEach_key merged' rest))"
  by pat_completeness auto

lemma vsize_pos: "0 < vsize v"
  by (cases v) auto

lemma entries_size_filter: "entries_size (filter P kvs) \<le> entries_size kvs"
  by (induction kvs) (auto simp: entries_size_def)

lemma entries_size_own_props: "entries_size (own_props kvs) \<le> entries_size kvs"
proof (induction kvs rule: own_props.induct)
  case 1
  show ?case by simp
next
  case (2 k v kvs)
  have "entries_size (own_props (filter (\<lambda>p. fst p \<noteq> k) kvs)) \<le> entries_size kvs"
    using 2 entries_size_filter [of "\<lambda>p. fst p \<noteq> k" kvs] by linarith
  then show ?case by (simp add: entries_size_def)
qed

lemma entries_size_zip_keys:
  "length ks = length xs \<Longrightarrow> entries_size (zip ks xs) = sum_list (map vsize xs)"
  by (induction ks xs rule: list_induct2) (auto simp: entries_size_def)

lemma sum_list_chars: "sum_list (map (vsize \<circ> (\<lambda>c. JStr [c])) s) = length s"
  by (induction s) auto

lemma own_entries_size:
  "own_entries source = Inr ents \<Longrightarrow> entries_size ents \<le> vsize source"
proof (cases source)
  case (JStr s)
  assume "own_entries source = Inr ents"
  with JStr have "ents = zip (map index_key [0..<length s]) (map (\<lambda>c. JStr [c]) s)"
    by (simp add: own_entries_def)
  then have "entries_size ents = length s"
    by (simp add: entries_size_zip_keys sum_list_chars)
  with JStr show ?thesis by simp
next
  case (JArr xs)
  assume "own_entries source = Inr ents"
  with JArr have "ents = zip (map index_key [0..<length xs]) xs"
    by (simp add: own_entries_def)
  then have "entries_size ents = sum_list (map vsize xs)"
    by (simp add: entries_size_zip_keys)
  with JArr show ?thesis by simp
next
  case (JObj kvs)
  assume "own_entries source = Inr ents"
  with JObj have "ents = own_props kvs"
    by (simp add: own_entries_def)
  then show ?thesis
    using entries_size_own_props [of kvs] JObj by (simp add: entries_size_def)
qed (auto simp: own_entries_def entries_size_def)

lemma lookup_vsize: "lookup kvs k = Some v \<Longrightarrow> vsize v \<le> entries_size kvs"
  by (induction kvs) (auto simp: entries_size_def split: if_splits)

lemma get_prop_object_smaller:
  "get_prop merged key = Inr tv \<Longrightarrow> isObject tv \<Longrightarrow> vsize tv < vsize merged"
  by (cases merged)
     (auto simp: get_prop_def isObject_def typeof_def entries_size_def [symmetric]
           dest!: lookup_vsize split: option.splits)

termination mergeObjects
proof (relation "inv_image (less_than <*lex*> less_than <*lex*> less_than)
    (\<lambda>x. case x of
        Inl (target, source) \<Rightarrow> (vsize source, vsize target, 1::nat)
      | Inr (merged, ents) \<Rightarrow> (entries_size ents, vsize merged, 0))", goal_cases)
  case 1
  show ?case by (intro wf_inv_image wf_lex_prod wf_less_than)
next
  case (2 target source ents)
  then show ?case using own_entries_size [of source ents] by auto
next
  case (3 merged key sourceValue rest tv)
  then have "vsize tv < vsize merged"
    by (rule get_prop_object_smaller)
  moreover have "vsize sourceValue \<le> entries_size ((key, sourceValue) # rest)"
    by (simp add: entries_size_def)
  ultimately show ?case by auto
next
  case (4 merged key sourceValue rest tv r merged')
  then show ?case using vsize_pos [of sourceValue] by (auto simp: entries_size_def)
next
  case (5 merged key sourceValue rest tv merged')
  then show ?case using vsize_pos [of sourceValue] by (auto simp: entries_size_def)
qed

declare mergeObjects.simps [simp del]

section \<open>Deduplicated Resource Loader\<close>

text \<open>
  \<open>globalGetScript(url, options)\<close>.  A promise is an object with an identity: the page
  keeps the promises created so far in \<open>promises\<close>, a promise reference is its index
  there.  \<open>requests\<close> is \<open>window.ucGlobals.requests\<close>, which only this function writes,
  so \<open>requests[url] instanceof Promise\<close> holds exactly when an entry exists.  \<open>scripts\<close>
  lists the \<open>src\<close> of every script element inserted into the document, one per
  underlying load.  The load handler of the script settles the promise:
  \<open>Onload p\<close> resolves it, \<open>Onabort p\<close> rejects it, and settling a settled promise does
  nothing.
\<close>

datatype promise_state = Pending | Resolved | Rejected

record page =
  requests :: "string \<Rightarrow> nat option"
  promises :: "promise_state list"
  scripts :: "string list"

definition fresh_page :: page where
  "fresh_page = \<lparr>requests = (\<lambda>url. None), promises = [], scripts = []\<rparr>"

definition createGlobalPromise :: "string \<Rightarrow> page \<Rightarrow> nat \<times> page" where
  "createGlobalPromise url pg =
     (length (promises pg),
      pg\<lparr>promises := promises pg @ [Pending], scripts := scripts pg @ [url]\<rparr>)"

definition globalGetScript :: "string \<Rightarrow> page \<Rightarrow> nat \<times> page" where
  "globalGetScript url pg =
     (case requests pg url of
        Some p \<Rightarrow> (p, pg)
      | None \<Rightarrow>
          (let (p, pg') = createGlobalPromise url pg
           in (p, pg'\<lparr>requests := (requests pg')(url \<mapsto> p)\<rparr>)))"

definition settle :: "promise_state \<Rightarrow> nat \<Rightarrow> page \<Rightarrow> page" where
  "settle outcome p pg =
     (if p < length (promises pg) \<and> promises pg ! p = Pending
      then pg\<lparr>promises := (promises pg)[p := outcome]\<rparr>
      else pg)"

datatype page_event = Call string | Onload nat | Onabort nat

fun page_step :: "page_event \<Rightarrow> page \<Rightarrow> page" where
  "page_step (Call url) pg = snd (globalGetScript url pg)"
| "page_step (Onload p) pg = settle Resolved p pg"
| "page_step (Onabort p) pg = settle Rejected p pg"

definition page_run :: "page_event list \<Rightarrow> page \<Rightarrow> page" where
  "page_run evs pg = fold page_step evs pg"

section \<open>Mutation Coordinator\<close>

text \<open>
  The object \<open>observer\<close> with its registry \<open>active\<close> and its methods \<open>connect\<close> and
  \<open>disconnect\<close>.  A DOM element is its identity, and has no property \<open>length\<close>.  The
  argument \<open>elements\<close> is a single element or a collection (for \<open>connect\<close>, a jQuery
  object: \<open>elements.jquery\<close>).  A
  \<open>MutationObserver\<close> is an object on a heap, \<open>observers\<close>; it holds the targets it
  observes, which its native \<open>disconnect()\<close> empties, and the variables its callback
  closes over: \<open>blockCb\<close> (declared without a value, so falsy), \<open>options.throttle\<close> and
  \<open>elements\<close>.  Time is in milliseconds.  \<open>cb_calls\<close> records every call
  \<open>cb(elements, mutation)\<close>, with the observer that made it.
\<close>

type_synonym element = nat

datatype elements = HTMLElement element | JQuery "element list"

record mutation_observer =
  observed :: "element list"
  blockCb :: bool
  throttle :: int
  elements_arg :: elements

record 'm observer_state =
  clock :: int
  unblock_timers :: "(int \<times> nat) list"
  observers :: "mutation_observer list"
  active :: "(element \<times> nat) list"
  cb_calls :: "(nat \<times> elements \<times> 'm) list"

definition no_observers :: "int \<Rightarrow> 'm observer_state" where
  "no_observers t0 =
     \<lparr>clock = t0, unblock_timers = [], observers = [], active = [], cb_calls = []\<rparr>"

definition targets :: "elements \<Rightarrow> element list" where
  "targets els = (case els of JQuery xs \<Rightarrow> xs | HTMLElement e \<Rightarrow> [e])"

definition connect :: "elements \<Rightarrow> int \<Rightarrow> 'm observer_state \<Rightarrow> nat \<times> 'm observer_state" where
  "connect els thr s =
     (let mutationObserver = length (observers s)
      in (mutationObserver,
          s\<lparr>observers := observers s @
                [\<lparr>observed = targets els, blockCb = False, throttle = thr, elements_arg = els\<rparr>],
            active := active s @ map (\<lambda>e. (e, mutationObserver)) (targets els)\<rparr>))"

text \<open>
  \<open>observer_disconnect\<close> is the native \<open>MutationObserver.disconnect()\<close>: the observer
  stops observing all of its targets.  \<open>removeObservers\<close> is the inner function of
  \<open>disconnect\<close>; the registry \<open>active\<close> itself is never shortened.  A collection of
  length zero is falsy in \<open>if (elements.length)\<close> and is then compared, as one object, with
  the registered elements, none of which it is identical to.
\<close>

definition observer_disconnect :: "nat \<Rightarrow> 'm observer_state \<Rightarrow> 'm observer_state" where
  "observer_disconnect ob s =
     (if ob < length (observers s)
      then s\<lparr>observers := (observers s)[ob := (observers s ! ob)\<lparr>observed := []\<rparr>]\<rparr>
      else s)"

definition removeObservers :: "element \<Rightarrow> 'm observer_state \<Rightarrow> 'm observer_state" where
  "removeObservers el s =
     fold (\<lambda>entry s'. if el = fst entry then observer_disconnect (snd entry) s' else s')
       (active s) s"

definition disconnect :: "elements \<Rightarrow> 'm observer_state \<Rightarrow> 'm observer_state" where
  "disconnect els s =
     (case els of
        JQuery xs \<Rightarrow> if length xs \<noteq> 0 then fold removeObservers xs s else s
      | HTMLElement e \<Rightarrow> removeObservers e s)"

text \<open>
  The callback given to \<open>new MutationObserver\<close>: \<open>on_mutation\<close> is the body of
  \<open>mutations.forEach\<close>.  \<open>setTimeout\<close> clamps a negative delay to zero; the timer it
  sets runs \<open>blockCb = false\<close>.
\<close>

definition setTimeout_unblock :: "nat \<Rightarrow> int \<Rightarrow> 'm observer_state \<Rightarrow> 'm observer_state" where
  "setTimeout_unblock ob delay s =
     s\<lparr>unblock_timers := unblock_timers s @ [(clock s + max 0 delay, ob)]\<rparr>"

definition on_mutation :: "nat \<Rightarrow> 'm \<Rightarrow> 'm observer_state \<Rightarrow> 'm observer_state" where
  "on_mutation ob mutation s =
     (let o_rec = observers s ! ob
      in if \<not> blockCb o_rec then
           setTimeout_unblock ob (throttle o_rec)
             (s\<lparr>observers := (observers s)[ob := o_rec\<lparr>blockCb := True\<rparr>],
                cb_calls := cb_calls s @ [(ob, elements_arg o_rec, mutation)]\<rparr>)
         else s)"

definition observer_callback :: "nat \<Rightarrow> 'm list \<Rightarrow> 'm observer_state \<Rightarrow> 'm observer_state" where
  "observer_callback ob mutations s =
     (if ob < length (observers s) then fold (on_mutation ob) mutations s else s)"

definition unblock :: "nat \<Rightarrow> 'm observer_state \<Rightarrow> 'm observer_state" where
  "unblock ob s =
     (if ob < length (observers s)
      then s\<lparr>observers := (observers s)[ob := (observers s ! ob)\<lparr>blockCb := False\<rparr>]\<rparr>
      else s)"

text \<open>
  The clock: \<open>advance_to t\<close> moves the time to \<open>t\<close> and runs the timers that are due by
  then.  \<open>deliver ob t mutations\<close> is the browser calling the callback of observer \<open>ob\<close>
  with a batch of mutation records at time \<open>t\<close>; \<open>mutate el t mutations\<close> is a change of
  element \<open>el\<close>, delivered to every observer that observes \<open>el\<close>.
\<close>

definition advance_to :: "int \<Rightarrow> 'm observer_state \<Rightarrow> 'm observer_state" where
  "advance_to t s =
     (let t' = max (clock s) t;
          due = filter (\<lambda>tm. fst tm \<le> t') (unblock_timers s);
          later = filter (\<lambda>tm. \<not> fst tm \<le> t') (unblock_timers s)
      in fold (\<lambda>tm. unblock (snd tm)) due (s\<lparr>clock := t', unblock_timers := later\<rparr>))"


definition mutate :: "element \<Rightarrow> int \<Rightarrow> 'm list \<Rightarrow> 'm observer_state \<Rightarrow> 'm observer_state" where
  "mutate el t mutations s =
     (let s' = advance_to t s
      in fold (\<lambda>ob s''. if el \<in> set (observed (observers s'' ! ob))
                         then observer_callback ob mutations s'' else s'')
           [0..<length (observers s')] s')"


section \<open>Poller\<close>

text \<open>
  What the code calls from outside: a condition that is a function, and
  \<open>document.querySelector\<close>.  Both are given by the environment, as functions of the
  time of the call.  A call returns a value or throws; a condition function of the full
  poller may also call \<open>destroy()\<close> on the handle of its own session before it returns
  (\<open>fn_destroys\<close>).
\<close>

datatype exn = InvalidPollerExpression | OtherException

datatype outcome = Returns jsval | Throws exn

record env =
  call_fn :: "nat \<Rightarrow> int \<Rightarrow> outcome"
  fn_destroys :: "nat \<Rightarrow> int \<Rightarrow> bool"
  querySelector :: "string \<Rightarrow> int \<Rightarrow> outcome"

text \<open>
\<open>createPollingElement(...).expressionValidator(expr)\<close>.
\<close>

definition expressionValidator :: "env \<Rightarrow> jsval \<Rightarrow> int \<Rightarrow> exn + bool" where
  "expressionValidator env expr t =
     (if \<not> truthy expr then Inl InvalidPollerExpression
      else case expr of
          JFun f \<Rightarrow> (case call_fn env f t of Returns v \<Rightarrow> Inr (truthy v) | Throws e \<Rightarrow> Inl e)
        | JStr sel \<Rightarrow> (case querySelector env sel t of Returns v \<Rightarrow> Inr (truthy v) | Throws e \<Rightarrow> Inl e)
        | _ \<Rightarrow> Inr True)"

text \<open>
  A polling element with the fields the code sets on it; \<open>startedAt\<close> and \<open>winTimeout\<close>
  are \<open>undefined\<close> until they are assigned.  \<open>settings\<close> are the defaults of \<open>poller\<close>
  overwritten by the caller's options; of \<open>timeoutCallback\<close> only
  \<open>typeof timeoutCallback === 'function'\<close> matters.  Times are integer milliseconds, as
  \<open>Date.now()\<close> gives them; delays are rational (\<open>delay * multiplier\<close> with the default
  multiplier 1.1), exact where JavaScript rounds to a double.
\<close>

record polling_element =
  elm :: jsval
  maxDuration :: int
  startedAt :: "int option"
  winTimeout :: "nat option"

record settings =
  wait :: rat
  multiplier :: rat
  timeout :: int
  timeoutCallback_is_function :: bool

text \<open>
  The session: the clock, the active timers of \<open>setTimeout\<close> (handle, due time, and the
  two variables the timer's arrow function closes over: the polling element, by its index
  in \<open>pollingElements\<close>, and \<open>delay\<close>), the two arrays of \<open>poller\<close>, \<open>elements.length\<close>,
  and the trace of what the session did: each evaluation of a condition with its
  truthiness, each call of the success callback \<open>cb\<close>, each call of
  \<open>timeoutCallback(elm)\<close>, each exception that left a timer callback, and each call of
  \<open>destroy()\<close> on the handle.
\<close>

datatype trace_event =
    Evaluated nat bool
  | CbInvoked
  | TimeoutCallbackInvoked nat jsval
  | Uncaught nat exn
  | DestroyInvoked

type_synonym timer = "nat \<times> int \<times> nat \<times> rat"

record poller_state =
  now :: int
  next_handle :: nat
  timers :: "timer list"
  pollingElements :: "polling_element list"
  successfullyPolledElements :: "nat list"
  elements_length :: nat
  trace :: "trace_event list"

definition log_event :: "trace_event \<Rightarrow> poller_state \<Rightarrow> poller_state" where
  "log_event ev s = s\<lparr>trace := trace s @ [ev]\<rparr>"

text \<open>
  \<open>setTimeout\<close> returns a fresh positive handle; the timer is due after the delay,
  truncated to whole milliseconds, a negative delay counting as zero.  \<open>clearTimeout\<close>
  removes the timer, if it is still active.
\<close>

definition setTimeout :: "nat \<Rightarrow> rat \<Rightarrow> poller_state \<Rightarrow> nat \<times> poller_state" where
  "setTimeout i delay s =
     (next_handle s,
      s\<lparr>next_handle := Suc (next_handle s),
        timers := timers s @ [(next_handle s, now s + \<lfloor>max 0 delay\<rfloor>, i, delay)]\<rparr>)"

definition clearTimeout :: "nat \<Rightarrow> poller_state \<Rightarrow> poller_state" where
  "clearTimeout h s = s\<lparr>timers := filter (\<lambda>tm. fst tm \<noteq> h) (timers s)\<rparr>"

text \<open>
  The methods \<open>destroy\<close> and \<open>poll\<close> of a polling element.  \<open>!this.startedAt\<close> holds for
  \<open>undefined\<close> and for the time 0; \<open>if (this.winTimeout)\<close> fails for \<open>undefined\<close> and for
  a handle 0.
\<close>

definition element_destroy :: "nat \<Rightarrow> poller_state \<Rightarrow> poller_state" where
  "element_destroy i s =
     (if i < length (pollingElements s) then
        (case winTimeout (pollingElements s ! i) of
           Some h \<Rightarrow> if h \<noteq> 0 then clearTimeout h s else s
         | None \<Rightarrow> s)
      else s)"

definition poll :: "settings \<Rightarrow> nat \<Rightarrow> rat \<Rightarrow> poller_state \<Rightarrow> poller_state" where
  "poll st i delay s =
     (if i < length (pollingElements s) then
        (let e = pollingElements s ! i;
             started = (case startedAt e of
                          Some t \<Rightarrow> if t \<noteq> 0 then t else now s
                        | None \<Rightarrow> now s);
             s1 = s\<lparr>pollingElements := (pollingElements s)[i := e\<lparr>startedAt := Some started\<rparr>]\<rparr>;
             exceedsMaxDuration =
               (if maxDuration e \<noteq> 0 then started + maxDuration e < now s else False)
         in if exceedsMaxDuration then
              element_destroy i
                (if timeoutCallback_is_function st
                 then log_event (TimeoutCallbackInvoked i (elm e)) s1 else s1)
            else
              (let (h, s2) = setTimeout i delay s1
               in s2\<lparr>pollingElements :=
                    (pollingElements s2)[i := (pollingElements s2 ! i)\<lparr>winTimeout := Some h\<rparr>]\<rparr>))
      else s)"

text \<open>
  The success callback that \<open>poller\<close> passes to \<open>poll\<close>, the \<open>destroy\<close> of the returned
  handle, and the arrow function that \<open>poll\<close> passes to \<open>setTimeout\<close>.  A condition
  function that calls \<open>destroy()\<close> does so while \<open>expressionValidator\<close> runs it.
\<close>

definition successCallback :: "nat \<Rightarrow> poller_state \<Rightarrow> poller_state" where
  "successCallback i s =
     (let s1 = s\<lparr>successfullyPolledElements := successfullyPolledElements s @ [i]\<rparr>
      in if length (successfullyPolledElements s1) = elements_length s1
         then log_event CbInvoked s1 else s1)"

definition handle_destroy :: "poller_state \<Rightarrow> poller_state" where
  "handle_destroy s =
     fold element_destroy [0..<length (pollingElements s)] (log_event DestroyInvoked s)"

definition timer_callback :: "env \<Rightarrow> settings \<Rightarrow> nat \<Rightarrow> rat \<Rightarrow> poller_state \<Rightarrow> poller_state" where
  "timer_callback env st i delay s =
     (if i < length (pollingElements s) then
        (let expr = elm (pollingElements s ! i);
             s1 = (case expr of
                     JFun f \<Rightarrow> if fn_destroys env f (now s) then handle_destroy s else s
                   | _ \<Rightarrow> s)
         in case expressionValidator env expr (now s) of
              Inl ex \<Rightarrow> log_event (Uncaught i ex) s1
            | Inr True \<Rightarrow> successCallback i (log_event (Evaluated i True) s1)
            | Inr False \<Rightarrow>
                poll st i (delay * multiplier st) (log_event (Evaluated i False) s1))
      else s)"

text \<open>
  \<open>poller(elements, cb, options)\<close>: \<open>track\<close> is the body of its loop.  No time passes
  while it runs.
\<close>

definition createPollingElement :: "jsval \<Rightarrow> int \<Rightarrow> polling_element" where
  "createPollingElement el maxD =
     \<lparr>elm = el, maxDuration = maxD, startedAt = None, winTimeout = None\<rparr>"

definition track :: "settings \<Rightarrow> jsval \<Rightarrow> poller_state \<Rightarrow> poller_state" where
  "track st el s =
     poll st (length (pollingElements s)) (wait st)
       (s\<lparr>pollingElements := pollingElements s @ [createPollingElement el (timeout st)]\<rparr>)"

definition poller :: "settings \<Rightarrow> jsval list \<Rightarrow> int \<Rightarrow> poller_state" where
  "poller st elements t0 =
     fold (track st) elements
       \<lparr>now = t0, next_handle = 1, timers = [], pollingElements = [],
        successfullyPolledElements = [], elements_length = length elements, trace = []\<rparr>"

text \<open>
  What happens to a session afterwards: an active timer fires at some time not before it
  is due, or the caller calls \<open>destroy()\<close> between two timer callbacks.  \<open>exec\<close> runs any
  such schedule; \<open>run_timers n\<close> is the fake clock, which \<open>n\<close> times fires the timer
  that is due first, exactly when it is due.
\<close>

datatype event = TimerFires nat int | DestroyCalled

definition fire :: "env \<Rightarrow> settings \<Rightarrow> nat \<Rightarrow> int \<Rightarrow> poller_state \<Rightarrow> poller_state" where
  "fire env st h t s =
     (case find (\<lambda>tm. fst tm = h) (timers s) of
        None \<Rightarrow> s
      | Some (h', due, i, delay) \<Rightarrow>
          if due \<le> t \<and> now s \<le> t
          then timer_callback env st i delay
                 (s\<lparr>now := t, timers := filter (\<lambda>tm. fst tm \<noteq> h) (timers s)\<rparr>)
          else s)"

fun step :: "env \<Rightarrow> settings \<Rightarrow> event \<Rightarrow> poller_state \<Rightarrow> poller_state" where
  "step env st (TimerFires h t) s = fire env st h t s"
| "step env st DestroyCalled s = handle_destroy s"

definition exec :: "env \<Rightarrow> settings \<Rightarrow> event list \<Rightarrow> poller_state \<Rightarrow> poller_state" where
  "exec env st evs s = fold (step env st) evs s"

fun earliest :: "timer list \<Rightarrow> timer option" where
  "earliest [] = None"
| "earliest (tm # tms) =
     (case earliest tms of
        None \<Rightarrow> Some tm
      | Some tm' \<Rightarrow> if fst (snd tm) \<le> fst (snd tm') then Some tm else Some tm')"

definition tick :: "env \<Rightarrow> settings \<Rightarrow> poller_state \<Rightarrow> poller_state" where
  "tick env st s =
     (case earliest (timers s) of
        None \<Rightarrow> s
      | Some (h, due, i, delay) \<Rightarrow> fire env st h (max (now s) due) s)"

fun run_timers :: "env \<Rightarrow> settings \<Rightarrow> nat \<Rightarrow> poller_state \<Rightarrow> poller_state" where
  "run_timers env st 0 s = s"
| "run_timers env st (Suc n) s = run_timers env st n (tick env st s)"

text \<open>
  Readings of a session: the components of a timer; how often \<open>timeoutCallback\<close> was
  called for element \<open>i\<close>; the trace before the first call of \<open>cb\<close>; the trace without
  the calls of \<open>destroy()\<close>.  \<open>budget\<close> bounds the number of timers a session with
  maximal duration \<open>D\<close> can still fire: a timer of an element started at \<open>s\<close> and due at
  \<open>d\<close> is followed by at most \<open>s + D + 1 - d\<close> more of that element.
\<close>

definition timer_elem :: "timer \<Rightarrow> nat" where
  "timer_elem tm = fst (snd (snd tm))"



definition is_timeout_of :: "nat \<Rightarrow> trace_event \<Rightarrow> bool" where
  "is_timeout_of i ev = (case ev of TimeoutCallbackInvoked j e \<Rightarrow> j = i | _ \<Rightarrow> False)"

definition timeouts_of :: "nat \<Rightarrow> trace_event list \<Rightarrow> nat" where
  "timeouts_of i tr = length (filter (is_timeout_of i) tr)"

definition before_cb :: "trace_event list \<Rightarrow> trace_event list" where
  "before_cb tr = takeWhile (\<lambda>ev. ev \<noteq> CbInvoked) tr"

definition callbacks :: "trace_event list \<Rightarrow> trace_event list" where
  "callbacks tr = filter (\<lambda>ev. ev \<noteq> DestroyInvoked) tr"




section \<open>Lightweight Poller\<close>

text \<open>
  \<open>pollerLite(conditions, callback, userOptions)\<close> (the function \<open>poller\<close> of
  \<^verbatim>\<open>src/utils.js\<close> is the same code).  \<open>lite_options\<close> are the defaults with the
  user's options merged in.  \<open>deadline\<close> is the constant \<open>timeout\<close>, a date or \<open>null\<close>.
  A timer holds the two variables its arrow function closes over: the condition, by its
  index, and \<open>waitTime\<close>.  The trace records each evaluation with its result and time,
  each call of \<open>callback\<close> with its argument, and each exception.
\<close>

datatype lite_event =
    LiteEvaluated nat jsval int
  | LiteCallback "jsval list"
  | LiteThrown exn

type_synonym lite_timer = "nat \<times> int \<times> nat \<times> rat"

record lite_options =
  lite_wait :: rat
  lite_multiplier :: rat
  lite_timeout :: int

record lite_state =
  lite_now :: int
  lite_next_handle :: nat
  lite_timers :: "lite_timer list"
  conditions :: "jsval list"
  deadline :: "int option"
  successfulConditions :: "jsval list"
  lite_trace :: "lite_event list"

definition isTimedOut :: "lite_state \<Rightarrow> bool" where
  "isTimedOut s = (case deadline s of Some d \<Rightarrow> lite_now s > d | None \<Rightarrow> False)"

definition evaluateCondition :: "env \<Rightarrow> jsval \<Rightarrow> int \<Rightarrow> outcome" where
  "evaluateCondition env condition t =
     (case condition of
        JFun f \<Rightarrow> call_fn env f t
      | JStr sel \<Rightarrow> querySelector env sel t
      | _ \<Rightarrow> Returns (JBool True))"

definition allConditionsPassed :: "lite_state \<Rightarrow> bool" where
  "allConditionsPassed s \<longleftrightarrow> length (successfulConditions s) = length (conditions s)"

definition lite_setTimeout :: "nat \<Rightarrow> rat \<Rightarrow> rat \<Rightarrow> lite_state \<Rightarrow> lite_state" where
  "lite_setTimeout i next_wait delay s =
     s\<lparr>lite_next_handle := Suc (lite_next_handle s),
       lite_timers := lite_timers s @
         [(lite_next_handle s, lite_now s + \<lfloor>max 0 delay\<rfloor>, i, next_wait)]\<rparr>"

text \<open>
  \<open>pollForCondition\<close> returns the session, or the exception that the condition threw.
  The recursive call in the timer passes \<open>waitTime * multiplier\<close> and no \<open>skipWait\<close>.
\<close>

definition pollForCondition ::
  "env \<Rightarrow> lite_options \<Rightarrow> nat \<Rightarrow> rat \<Rightarrow> bool \<Rightarrow> lite_state \<Rightarrow> exn + lite_state" where
  "pollForCondition env opts i waitTime skipWait s =
     (if isTimedOut s then Inr s
      else if \<not> i < length (conditions s) then Inr s
      else case evaluateCondition env (conditions s ! i) (lite_now s) of
          Throws ex \<Rightarrow> Inl ex
        | Returns result \<Rightarrow>
            (let s1 = s\<lparr>lite_trace := lite_trace s @ [LiteEvaluated i result (lite_now s)]\<rparr>
             in if truthy result then
                  (let s2 = s1\<lparr>successfulConditions := successfulConditions s1 @ [result]\<rparr>
                   in if allConditionsPassed s2
                      then Inr (s2\<lparr>lite_trace := lite_trace s2 @ [LiteCallback (successfulConditions s2)]\<rparr>)
                      else Inr s2)
                else Inr (lite_setTimeout i (waitTime * lite_multiplier opts)
                            (if skipWait then 0 else waitTime) s1)))"

text \<open>
  The loop that starts the polling stops at the first exception, which leaves
  \<open>pollerLite\<close>.  \<open>lite_fire\<close> is a timer firing at a time not before it is due,
  \<open>lite_exec\<close> a schedule of such firings.
\<close>

fun start_polling :: "env \<Rightarrow> lite_options \<Rightarrow> nat list \<Rightarrow> lite_state \<Rightarrow> lite_state" where
  "start_polling env opts [] s = s"
| "start_polling env opts (i # is) s =
     (case pollForCondition env opts i (lite_wait opts) True s of
        Inl ex \<Rightarrow> s\<lparr>lite_trace := lite_trace s @ [LiteThrown ex]\<rparr>
      | Inr s' \<Rightarrow> start_polling env opts is s')"

definition pollerLite :: "env \<Rightarrow> lite_options \<Rightarrow> jsval list \<Rightarrow> int \<Rightarrow> lite_state" where
  "pollerLite env opts conds t0 =
     start_polling env opts [0..<length conds]
       \<lparr>lite_now = t0, lite_next_handle = 1, lite_timers = [], conditions = conds,
        deadline = (if lite_timeout opts \<noteq> 0 then Some (t0 + lite_timeout opts) else None),
        successfulConditions = [], lite_trace = []\<rparr>"

definition lite_fire :: "env \<Rightarrow> lite_options \<Rightarrow> nat \<Rightarrow> int \<Rightarrow> lite_state \<Rightarrow> lite_state" where
  "lite_fire env opts h t s =
     (case find (\<lambda>tm. fst tm = h) (lite_timers s) of
        None \<Rightarrow> s
      | Some (h', due, i, next_wait) \<Rightarrow>
          if due \<le> t \<and> lite_now s \<le> t then
            (let s' = s\<lparr>lite_now := t, lite_timers := filter (\<lambda>tm. fst tm \<noteq> h) (lite_timers s)\<rparr>
             in case pollForCondition env opts i next_wait False s' of
                  Inl ex \<Rightarrow> s'\<lparr>lite_trace := lite_trace s' @ [LiteThrown ex]\<rparr>
                | Inr s'' \<Rightarrow> s'')
          else s)"

definition lite_exec :: "env \<Rightarrow> lite_options \<Rightarrow> (nat \<times> int) list \<Rightarrow> lite_state \<Rightarrow> lite_state" where
  "lite_exec env opts fires s = fold (\<lambda>f. lite_fire env opts (fst f) (snd f)) fires s"

definition is_lite_callback :: "lite_event \<Rightarrow> bool" where
  "is_lite_callback ev = (case ev of LiteCallback vs \<Rightarrow> True | _ \<Rightarrow> False)"

definition lite_callbacks :: "lite_event list \<Rightarrow> nat" where
  "lite_callbacks tr = length (filter is_lite_callback tr)"

section \<open>Concrete sessions\<close>

text \<open>
  Options, environments and schedules at which the theorems below are evaluated.
  \<open>ready_from a b\<close> makes condition function 0 true from time \<open>a\<close> on and every other one
  from time \<open>b\<close> on.
\<close>

definition default_settings :: settings where
  "default_settings =
     \<lparr>wait = 50, multiplier = 11 / 10, timeout = 0, timeoutCallback_is_function = True\<rparr>"


definition no_wait_settings :: settings where
  "no_wait_settings =
     \<lparr>wait = 0, multiplier = 11 / 10, timeout = 100, timeoutCallback_is_function = True\<rparr>"

definition lite_defaults :: lite_options where
  "lite_defaults = \<lparr>lite_wait = 50, lite_multiplier = 11 / 10, lite_timeout = 0\<rparr>"


definition ready_from :: "int \<Rightarrow> int \<Rightarrow> nat \<Rightarrow> int \<Rightarrow> outcome" where
  "ready_from a b f t = Returns (JBool (if f = 0 then a \<le> t else b \<le> t))"

definition never_ready :: "nat \<Rightarrow> int \<Rightarrow> outcome" where
  "never_ready f t = Returns (JBool False)"


definition no_dom :: "string \<Rightarrow> int \<Rightarrow> outcome" where
  "no_dom sel t = Returns JNull"

definition never :: "nat \<Rightarrow> int \<Rightarrow> bool" where
  "never f t = False"

definition always :: "nat \<Rightarrow> int \<Rightarrow> bool" where
  "always f t = True"

definition two_conditions_env :: env where
  "two_conditions_env =
     \<lparr>call_fn = ready_from 1100 1000, fn_destroys = never, querySelector = no_dom\<rparr>"

definition destroying_env :: env where
  "destroying_env =
     \<lparr>call_fn = ready_from 0 0, fn_destroys = always, querySelector = no_dom\<rparr>"

definition never_ready_env :: env where
  "never_ready_env = \<lparr>call_fn = never_ready, fn_destroys = never, querySelector = no_dom\<rparr>"







section \<open>Object Merge: a null target\<close>

lemma mergeObjects_JNull:
  "mergeObjects JNull source =
     (case own_entries source of
        Inl e \<Rightarrow> Inl e
      | Inr [] \<Rightarrow> Inr JNull
      | Inr (p # ps) \<Rightarrow> Inl TypeError)"
  by (cases "own_entries source")
     (auto simp: mergeObjects.simps get_prop_def split: list.splits)

lemma lookup_assign: "lookup (assign kvs k v) k' = (if k' = k then Some v else lookup kvs k')"
  by (induction kvs) auto

lemma isObject_cases: "isObject v \<longleftrightarrow> v = JNull \<or> (\<exists>ps. v = JObj ps)"
  by (cases v) (auto simp: isObject_def typeof_def instanceofArray_def)

lemma forEach_key_null_prop:
  "lookup m k = Some JNull \<Longrightarrow> forEach_key (JObj m) ents = Inr r \<Longrightarrow>
     (\<exists>m'. r = JObj m' \<and> lookup m' k = Some JNull) \<and>
     (\<forall>sv. (k, sv) \<in> set ents \<longrightarrow> mergeObjects JNull sv = Inr JNull)"
proof (induction ents arbitrary: m)
  case Nil
  then show ?case by auto
next
  case (Cons p ents)
  obtain key sv where p: "p = (key, sv)" by (cases p)
  obtain tv where tv: "get_prop (JObj m) key = Inr tv"
    by (cases "lookup m key") (auto simp: get_prop_def)
  show ?case
  proof (cases "isObject tv")
    case True
    with Cons.prems(2) p tv obtain r' where
      r': "mergeObjects tv sv = Inr r'"
      and rest: "forEach_key (JObj (assign m key r')) ents = Inr r"
      by (auto simp: set_prop_def split: sum.splits)
    have keep: "lookup (assign m key r') k = Some JNull"
    proof (cases "key = k")
      case True
      with tv Cons.prems(1) have "tv = JNull" by (simp add: get_prop_def)
      with r' have "r' = JNull"
        by (auto simp: mergeObjects_JNull split: sum.splits list.splits)
      then show ?thesis using Cons.prems(1) by (simp add: lookup_assign)
    next
      case False
      with Cons.prems(1) show ?thesis by (simp add: lookup_assign)
    qed
    have here: "key = k \<Longrightarrow> mergeObjects JNull sv = Inr JNull"
    proof -
      assume "key = k"
      with tv Cons.prems(1) have "tv = JNull" by (simp add: get_prop_def)
      with r' show ?thesis
        by (auto simp: mergeObjects_JNull split: sum.splits list.splits)
    qed
    from Cons.IH [OF keep rest] here p show ?thesis by auto
  next
    case False
    with Cons.prems(2) p tv have
      rest: "forEach_key (JObj (assign m key sv)) ents = Inr r"
      by (auto simp: set_prop_def split: sum.splits)
    from False tv Cons.prems(1) have ne: "key \<noteq> k"
      by (auto simp: get_prop_def isObject_cases)
    then have keep: "lookup (assign m key sv) k = Some JNull"
      using Cons.prems(1) by (simp add: lookup_assign)
    from Cons.IH [OF keep rest] ne p show ?thesis by auto
  qed
qed

lemma merge_no_OutsideModel:
  "isObject target \<Longrightarrow> mergeObjects target source \<noteq> Inl OutsideModel"
  "isObject merged \<Longrightarrow> forEach_key merged ents \<noteq> Inl OutsideModel"
proof (induction target source and merged ents rule: mergeObjects_forEach_key.induct)
  case (1 target source)
  then show ?case
    by (cases "own_entries source") (auto simp: mergeObjects.simps own_entries_def split: jsval.splits)
next
  case (2 merged)
  show ?case by simp
next
  case (3 merged key sourceValue rest)
  show ?case
  proof (cases merged)
    case JNull
    then show ?thesis by (simp add: get_prop_def)
  next
    case (JObj m)
    obtain tv where tv: "get_prop merged key = Inr tv"
      using JObj by (cases "lookup m key") (auto simp: get_prop_def)
    show ?thesis
    proof (cases "isObject tv")
      case True
      show ?thesis
      proof (cases "mergeObjects tv sourceValue")
        case (Inl e)
        with "3.IH"(1) [OF tv True True] have "e \<noteq> OutsideModel" by auto
        with Inl tv True show ?thesis by simp
      next
        case (Inr r')
        have sp: "set_prop merged key r' = Inr (JObj (assign m key r'))"
          using JObj by (simp add: set_prop_def)
        have "isObject (JObj (assign m key r'))" by (simp add: isObject_cases)
        from "3.IH"(2) [OF tv True Inr sp this] Inr tv True sp show ?thesis by simp
      qed
    next
      case False
      have sp: "set_prop merged key sourceValue = Inr (JObj (assign m key sourceValue))"
        using JObj by (simp add: set_prop_def)
      have "isObject (JObj (assign m key sourceValue))" by (simp add: isObject_cases)
      from "3.IH"(3) [OF tv False sp this] tv False sp show ?thesis by simp
    qed
  qed (use 3 in \<open>auto simp: isObject_cases\<close>)
qed

text \<open>
  C10 as it is stated: for every key \<open>k\<close> with \<open>target[k] === null\<close> that is present in
  \<open>source\<close>, the result never maps \<open>k\<close> to \<open>source[k]\<close>; the recursive merge returns
  \<open>null\<close> when \<open>source[k]\<close> is a number or a boolean and raises a TypeError when
  \<open>source[k]\<close> is a non-empty string, an array, or a non-empty object.  An empty array has
  no key: the recursive merge returns \<open>null\<close> for it and nothing is raised.
\<close>

theorem mergeObjects_null_empty_array_counterexample:
  "mergeObjects JNull (JArr []) = Inr JNull \<and>
   mergeObjects (JObj [(''k'', JNull)]) (JObj [(''k'', JArr [])]) = Inr (JObj [(''k'', JNull)])"
  by (simp add: mergeObjects.simps own_entries_def get_prop_def set_prop_def isObject_def
      typeof_def instanceofArray_def)

text \<open>
  C10, amended: for every key \<open>k\<close> with \<open>target[k] === null\<close> that is present in
  \<open>source\<close>, a result of \<open>mergeObjects(target, source)\<close> maps \<open>k\<close> to \<open>null\<close> and never
  to \<open>source[k]\<close>; the recursive merge \<open>mergeObjects(null, source[k])\<close> returns \<open>null\<close>
  when \<open>source[k]\<close> is a number or a boolean, and it raises a TypeError, as then does the
  whole call, when \<open>source[k]\<close> is a non-empty string, a non-empty array or a non-empty
  object.
\<close>

theorem mergeObjects_null_target_key:
  assumes "get_prop target k = Inr JNull"
    and "own_entries source = Inr ents"
    and "(k, sv) \<in> set ents"
  shows "(\<forall>r. mergeObjects target source = Inr r \<longrightarrow>
            get_prop r k = Inr JNull \<and> get_prop r k \<noteq> Inr sv) \<and>
         ((\<exists>n. sv = JNum n) \<or> (\<exists>b. sv = JBool b) \<longrightarrow> mergeObjects JNull sv = Inr JNull) \<and>
         ((\<exists>s. sv = JStr s \<and> s \<noteq> []) \<or> (\<exists>xs. sv = JArr xs \<and> xs \<noteq> []) \<or>
          (\<exists>ps. sv = JObj ps \<and> ps \<noteq> []) \<longrightarrow>
            mergeObjects JNull sv = Inl TypeError \<and>
            mergeObjects target source = Inl TypeError)"
proof -
  from assms(1) obtain m where target: "target = JObj m" and lk: "lookup m k = Some JNull"
    by (cases target) (auto simp: get_prop_def split: option.splits)
  have ok: "get_prop r k = Inr JNull \<and> mergeObjects JNull sv = Inr JNull"
    if "mergeObjects target source = Inr r" for r
  proof -
    from that assms(2) target have "forEach_key (JObj m) ents = Inr r"
      by (simp add: mergeObjects.simps)
    from forEach_key_null_prop [OF lk this] assms(3) show ?thesis
      by (auto simp: get_prop_def)
  qed
  have first: "\<forall>r. mergeObjects target source = Inr r \<longrightarrow>
            get_prop r k = Inr JNull \<and> get_prop r k \<noteq> Inr sv"
  proof (intro allI impI)
    fix r assume r: "mergeObjects target source = Inr r"
    from ok [OF r] have "sv \<noteq> JNull"
      by (auto simp: mergeObjects_JNull own_entries_def)
    with ok [OF r] show "get_prop r k = Inr JNull \<and> get_prop r k \<noteq> Inr sv" by simp
  qed
  have second: "(\<exists>n. sv = JNum n) \<or> (\<exists>b. sv = JBool b) \<longrightarrow> mergeObjects JNull sv = Inr JNull"
    by (auto simp: mergeObjects_JNull own_entries_def)
  have third: "mergeObjects JNull sv = Inl TypeError \<and> mergeObjects target source = Inl TypeError"
    if "(\<exists>s. sv = JStr s \<and> s \<noteq> []) \<or> (\<exists>xs. sv = JArr xs \<and> xs \<noteq> []) \<or>
          (\<exists>ps. sv = JObj ps \<and> ps \<noteq> [])"
  proof -
    from that have "own_entries sv \<noteq> Inr [] \<and> (\<exists>es. own_entries sv = Inr es)"
      by (auto simp: own_entries_def neq_Nil_conv upt_conv_Cons)
    then have bad: "mergeObjects JNull sv = Inl TypeError"
      by (auto simp: mergeObjects_JNull split: list.splits)
    have "mergeObjects target source \<noteq> Inr r" for r
      using ok [of r] bad by auto
    moreover have "mergeObjects target source \<noteq> Inl OutsideModel"
      using merge_no_OutsideModel(1) [of target source] target by (simp add: isObject_cases)
    ultimately have "mergeObjects target source = Inl TypeError"
      by (cases "mergeObjects target source") (auto intro: error.exhaust)
    with bad show ?thesis by simp
  qed
  from first second third show ?thesis by blast
qed

theorem mergeObjects_null_target_key_witness:
  "get_prop (JObj [(''a'', JNum 1), (''k'', JNull)]) ''k'' = Inr JNull \<and>
   own_entries (JObj [(''k'', JStr ''x'')]) = Inr [(''k'', JStr ''x'')] \<and>
   (''k'', JStr ''x'') \<in> set [(''k'', JStr ''x'')] \<and>
   mergeObjects JNull (JStr ''x'') = Inl TypeError \<and>
   mergeObjects (JObj [(''a'', JNum 1), (''k'', JNull)]) (JObj [(''k'', JStr ''x'')]) = Inl TypeError"
proof -
  have h1: "get_prop (JObj [(''a'', JNum 1), (''k'', JNull)]) ''k'' = Inr JNull"
    by (simp add: get_prop_def)
  have h2: "own_entries (JObj [(''k'', JStr ''x'')]) = Inr [(''k'', JStr ''x'')]"
    by (simp add: own_entries_def)
  have h3: "(''k'', JStr ''x'') \<in> set [(''k'', JStr ''x'')]"
    by simp
  show ?thesis
    using mergeObjects_null_target_key [OF h1 h2 h3] h1 h2 by simp
qed

section \<open>Resource Loader: one promise and one load for a url\<close>

text \<open>
  The invariant of the cache: a url has been loaded once if it has an entry and never
  otherwise, and every entry refers to a promise that exists.
\<close>

definition cache_inv :: "page \<Rightarrow> bool" where
  "cache_inv pg \<longleftrightarrow>
     (\<forall>url. count_list (scripts pg) url = (if requests pg url = None then 0 else 1)) \<and>
     (\<forall>url p. requests pg url = Some p \<longrightarrow> p < length (promises pg))"

lemma requests_settle [simp]: "requests (settle st p pg) = requests pg"
  and scripts_settle [simp]: "scripts (settle st p pg) = scripts pg"
  and length_promises_settle [simp]: "length (promises (settle st p pg)) = length (promises pg)"
  by (simp_all add: settle_def)

lemma cache_inv_fresh: "cache_inv fresh_page"
  by (simp add: cache_inv_def fresh_page_def)

lemma cache_inv_step: "cache_inv pg \<Longrightarrow> cache_inv (page_step ev pg)"
proof (cases ev)
  case (Call url)
  assume poller_inv: "cache_inv pg"
  show ?thesis
  proof (cases "requests pg url")
    case None
    with poller_inv Call show ?thesis
      by (auto simp: cache_inv_def globalGetScript_def createGlobalPromise_def less_Suc_eq)
  next
    case (Some p)
    with poller_inv Call show ?thesis
      by (auto simp: cache_inv_def globalGetScript_def)
  qed
qed (auto simp: cache_inv_def)

lemma cache_inv_run: "cache_inv pg \<Longrightarrow> cache_inv (page_run evs pg)"
  unfolding page_run_def by (induction evs arbitrary: pg) (auto intro: cache_inv_step)

lemma requests_step_mono: "requests pg url = Some p \<Longrightarrow> requests (page_step ev pg) url = Some p"
  by (cases ev) (auto simp: globalGetScript_def createGlobalPromise_def split: option.splits)

lemma requests_run_mono: "requests pg url = Some p \<Longrightarrow> requests (page_run evs pg) url = Some p"
  unfolding page_run_def by (induction evs arbitrary: pg) (auto intro: requests_step_mono)

lemma rejected_step: 
  "p < length (promises pg) \<Longrightarrow> promises pg ! p = Rejected \<Longrightarrow>
   p < length (promises (page_step ev pg)) \<and> promises (page_step ev pg) ! p = Rejected"
  by (cases ev) (auto simp: globalGetScript_def createGlobalPromise_def settle_def nth_append nth_list_update
      split: option.splits)

lemma rejected_run: 
  "p < length (promises pg) \<Longrightarrow> promises pg ! p = Rejected \<Longrightarrow>
   p < length (promises (page_run evs pg)) \<and> promises (page_run evs pg) ! p = Rejected"
  unfolding page_run_def 
proof (induction evs arbitrary: pg)
  case Nil
  then show ?case by simp
next
  case (Cons ev evs)
  from rejected_step [OF Cons.prems, of ev] Cons.IH [of "page_step ev pg"]
  show ?case by simp
qed

text \<open>
  C7: on a page where any calls and load events came \<open>before\<close>, let a call of
  \<open>globalGetScript(url)\<close> return the promise \<open>fst first\<close>, and let any calls (for any url)
  and load events follow, in \<open>middle\<close> and \<open>later\<close>.  Then a further call for \<open>url\<close>
  returns the identical promise and changes nothing (so it starts no load), exactly one
  script element for \<open>url\<close> was ever inserted, the promise still exists, and if it was
  rejected by the end of \<open>middle\<close> it is still rejected, and still in the cache, when the
  further call returns it.
\<close>

theorem globalGetScript_same_promise:
  fixes url :: string and before middle later :: "page_event list"
  defines "pg0 \<equiv> page_run before fresh_page"
  defines "first \<equiv> globalGetScript url pg0"
  defines "pg1 \<equiv> page_run middle (snd first)"
  defines "pg2 \<equiv> page_run later pg1"
  defines "again \<equiv> globalGetScript url pg2"
  shows "fst again = fst first \<and>
         snd again = pg2 \<and>
         count_list (scripts (snd again)) url = 1 \<and>
         fst again < length (promises (snd again)) \<and>
         (promises pg1 ! fst first = Rejected \<longrightarrow> promises (snd again) ! fst again = Rejected)"
proof -
  have "cache_inv pg0"
    unfolding pg0_def by (intro cache_inv_run cache_inv_fresh)
  then have "cache_inv (page_step (Call url) pg0)"
    by (rule cache_inv_step)
  then have inv_first: "cache_inv (snd first)"
    by (simp add: first_def)
  then have inv1: "cache_inv pg1"
    unfolding pg1_def by (rule cache_inv_run)
  then have inv2: "cache_inv pg2"
    unfolding pg2_def by (rule cache_inv_run)
  have "requests (snd first) url = Some (fst first)"
    unfolding first_def
    by (auto simp: globalGetScript_def createGlobalPromise_def split: option.splits)
  then have cached1: "requests pg1 url = Some (fst first)"
    unfolding pg1_def by (rule requests_run_mono)
  then have cached2: "requests pg2 url = Some (fst first)"
    unfolding pg2_def by (rule requests_run_mono)
  then have hit: "again = (fst first, pg2)"
    by (simp add: again_def globalGetScript_def)
  from inv2 cached2 have one: "count_list (scripts pg2) url = 1"
    and bound2: "fst first < length (promises pg2)"
    by (auto simp: cache_inv_def)
  from inv1 cached1 have bound1: "fst first < length (promises pg1)"
    by (auto simp: cache_inv_def)
  have "promises pg2 ! fst first = Rejected" if "promises pg1 ! fst first = Rejected"
    using rejected_run [OF bound1 that, of later] by (simp add: pg2_def)
  with hit one bound2 show ?thesis by simp
qed

theorem globalGetScript_same_promise_witness:
  "fst (globalGetScript ''x.js'' (page_run [Call ''a.js''] fresh_page)) = 1 \<and>
   fst (globalGetScript ''x.js'' (page_run [Call ''x.js'', Onload 0] (page_run [Onabort 1]
      (snd (globalGetScript ''x.js'' (page_run [Call ''a.js''] fresh_page)))))) = 1 \<and>
   promises (snd (globalGetScript ''x.js'' (page_run [Call ''x.js'', Onload 0] (page_run [Onabort 1]
      (snd (globalGetScript ''x.js'' (page_run [Call ''a.js''] fresh_page))))))) =
     [Resolved, Rejected] \<and>
   scripts (snd (globalGetScript ''x.js'' (page_run [Call ''x.js'', Onload 0] (page_run [Onabort 1]
      (snd (globalGetScript ''x.js'' (page_run [Call ''a.js''] fresh_page))))))) =
     [''a.js'', ''x.js'']"
  using globalGetScript_same_promise [where url = "''x.js''" and before = "[Call ''a.js'']"
      and middle = "[Onabort 1]" and later = "[Call ''x.js'', Onload 0]"]
  by (simp add: page_run_def globalGetScript_def createGlobalPromise_def settle_def fresh_page_def)

section \<open>Mutation Coordinator: disconnect and the throttle gate\<close>

text \<open>
  C5 says that \<open>disconnect(elementA)\<close> after \<open>connect([elementA, elementB], cb)\<close> leaves a
  mutation of \<open>elementB\<close> still invoking \<open>cb\<close>.  The code registers both elements with the
  one observer of the \<open>connect\<close> call, and \<open>disconnect\<close> calls the native
  \<open>disconnect()\<close> of that observer, which ends the observation of both.  With elements 7
  and 8: a mutation of 8 invokes \<open>cb\<close>; after \<open>disconnect(7)\<close> it no longer does; and the
  registry still holds both registrations.
\<close>

theorem observer_disconnect_stops_sibling:
  "cb_calls (mutate 8 5 [1::nat] (snd (connect (JQuery [7, 8]) 1000 (no_observers 0)))) =
     [(0, JQuery [7, 8], 1)] \<and>
   cb_calls (mutate 8 5 [1::nat]
      (disconnect (HTMLElement 7) (snd (connect (JQuery [7, 8]) 1000 (no_observers 0))))) = [] \<and>
   active (disconnect (HTMLElement 7) (snd (connect (JQuery [7, 8]) 1000 (no_observers 0)))
      :: nat observer_state) = [(7, 0), (8, 0)]"
  by code_simp















section \<open>Poller: the invariant of a session\<close>

text \<open>
  An element is idle when it has no timer, has not succeeded and has not timed out.  The
  invariant: every active timer has a positive handle of its own, which is the
  \<open>winTimeout\<close> of its element, and its element is neither in the success list nor
  timed out; the success list has no duplicates and holds exactly the elements whose
  condition evaluated truthy; no element timed out twice; and \<open>cb\<close> has been called once
  if the success list is complete and never otherwise, after every condition had
  evaluated truthy.
\<close>

definition idle :: "nat \<Rightarrow> poller_state \<Rightarrow> bool" where
  "idle i s \<longleftrightarrow>
     i < length (pollingElements s) \<and>
     (\<forall>tm \<in> set (timers s). timer_elem tm \<noteq> i) \<and>
     i \<notin> set (successfullyPolledElements s) \<and>
     timeouts_of i (trace s) = 0"

definition timers_inv :: "poller_state \<Rightarrow> bool" where
  "timers_inv s \<longleftrightarrow>
     0 < next_handle s \<and>
     distinct (map fst (timers s)) \<and>
     (\<forall>tm \<in> set (timers s).
        0 < fst tm \<and> fst tm < next_handle s \<and>
        timer_elem tm < length (pollingElements s) \<and>
        winTimeout (pollingElements s ! timer_elem tm) = Some (fst tm) \<and>
        timer_elem tm \<notin> set (successfullyPolledElements s) \<and>
        timeouts_of (timer_elem tm) (trace s) = 0)"

definition tally_inv :: "poller_state \<Rightarrow> bool" where
  "tally_inv s \<longleftrightarrow>
     distinct (successfullyPolledElements s) \<and>
     length (pollingElements s) \<le> elements_length s \<and>
     (\<forall>i. i \<in> set (successfullyPolledElements s) \<longleftrightarrow> Evaluated i True \<in> set (trace s)) \<and>
     (\<forall>i \<in> set (successfullyPolledElements s).
        i < length (pollingElements s) \<and> timeouts_of i (trace s) = 0) \<and>
     (\<forall>i. timeouts_of i (trace s) \<le> 1 \<and>
          (0 < timeouts_of i (trace s) \<longrightarrow> i < length (pollingElements s)))"

definition cb_inv :: "poller_state \<Rightarrow> bool" where
  "cb_inv s \<longleftrightarrow>
     count_list (trace s) CbInvoked =
       (if length (successfullyPolledElements s) = elements_length s \<and>
           successfullyPolledElements s \<noteq> [] then 1 else 0) \<and>
     (CbInvoked \<in> set (trace s) \<longrightarrow>
        (\<forall>i < elements_length s. Evaluated i True \<in> set (before_cb (trace s))))"

definition poller_inv :: "poller_state \<Rightarrow> bool" where
  "poller_inv s \<longleftrightarrow> timers_inv s \<and> tally_inv s \<and> cb_inv s"

lemma timeouts_of_simps [simp]:
  "timeouts_of i [] = 0"
  "timeouts_of i (ev # tr) = (if is_timeout_of i ev then 1 else 0) + timeouts_of i tr"
  "timeouts_of i (tr @ tr') = timeouts_of i tr + timeouts_of i tr'"
  by (simp_all add: timeouts_of_def)

lemma before_cb_append:
  "before_cb (tr @ [ev]) =
     (if CbInvoked \<in> set tr then before_cb tr
      else if ev = CbInvoked then tr else tr @ [ev])"
  by (induction tr) (auto simp: before_cb_def)

lemma before_cb_snoc2:
  "CbInvoked \<notin> set tr \<Longrightarrow> ev \<noteq> CbInvoked \<Longrightarrow> before_cb (tr @ [ev, CbInvoked]) = tr @ [ev]"
  by (induction tr) (auto simp: before_cb_def)

lemma inv_filter_timers:
  "poller_inv s \<Longrightarrow> poller_inv (s\<lparr>timers := filter P (timers s)\<rparr>)"
  by (auto simp: poller_inv_def timers_inv_def tally_inv_def cb_inv_def distinct_map_filter)

lemma inv_now [simp]: "poller_inv (s\<lparr>now := t\<rparr>) = poller_inv s"
  by (simp add: poller_inv_def timers_inv_def tally_inv_def cb_inv_def)

lemma inv_clearTimeout: "poller_inv s \<Longrightarrow> poller_inv (clearTimeout h s)"
  unfolding clearTimeout_def by (rule inv_filter_timers)

lemma inv_element_destroy: "poller_inv s \<Longrightarrow> poller_inv (element_destroy i s)"
  by (auto simp: element_destroy_def inv_clearTimeout split: option.splits)

lemma idle_clearTimeout: "idle i s \<Longrightarrow> idle i (clearTimeout h s)"
  by (auto simp: idle_def clearTimeout_def)

lemma idle_element_destroy: "idle i s \<Longrightarrow> idle i (element_destroy j s)"
  by (auto simp: element_destroy_def idle_clearTimeout split: option.splits)

text \<open>
An event that is neither a success nor a timeout keeps the invariant.
\<close>

definition quiet :: "trace_event \<Rightarrow> bool" where
  "quiet ev = (case ev of
      Evaluated i b \<Rightarrow> \<not> b
    | CbInvoked \<Rightarrow> False
    | TimeoutCallbackInvoked i e \<Rightarrow> False
    | Uncaught i ex \<Rightarrow> True
    | DestroyInvoked \<Rightarrow> True)"

lemma quiet_simps:
  "quiet ev \<Longrightarrow> ev \<noteq> CbInvoked"
  "quiet ev \<Longrightarrow> ev \<noteq> Evaluated i True"
  "quiet ev \<Longrightarrow> \<not> is_timeout_of i ev"
  by (cases ev; simp add: quiet_def is_timeout_of_def)+

lemma inv_log_quiet:
  assumes "poller_inv s" and "quiet ev"
  shows "poller_inv (log_event ev s)"
proof -
  note q = quiet_simps [OF assms(2)]
  from assms(1) have "timers_inv (log_event ev s)"
    using q(3) by (auto simp: poller_inv_def timers_inv_def log_event_def)
  moreover from assms(1) have "tally_inv (log_event ev s)"
    using q(2,3) by (auto simp: poller_inv_def tally_inv_def log_event_def)
  moreover from assms(1) have "cb_inv (log_event ev s)"
    using q(1) by (auto simp: poller_inv_def cb_inv_def log_event_def before_cb_append)
  ultimately show ?thesis by (simp add: poller_inv_def)
qed

lemma idle_log_quiet: "idle i s \<Longrightarrow> quiet ev \<Longrightarrow> idle i (log_event ev s)"
  using quiet_simps(3) [of ev i] by (auto simp: idle_def log_event_def)

text \<open>
A poll of an idle element keeps the invariant.
\<close>

lemma inv_startedAt_update:
  assumes "poller_inv s" and "i < length (pollingElements s)"
  shows "poller_inv (s\<lparr>pollingElements :=
            (pollingElements s)[i := (pollingElements s ! i)\<lparr>startedAt := Some t\<rparr>]\<rparr>)"
  using assms
  by (auto simp: poller_inv_def timers_inv_def tally_inv_def cb_inv_def nth_list_update)

lemma idle_startedAt_update:
  assumes "idle i s"
  shows "idle i (s\<lparr>pollingElements :=
            (pollingElements s)[j := (pollingElements s ! j)\<lparr>startedAt := Some t\<rparr>]\<rparr>)"
  using assms by (auto simp: idle_def)

lemma inv_log_timeout:
  assumes "poller_inv s" and "idle i s"
  shows "poller_inv (log_event (TimeoutCallbackInvoked i e) s)"
proof -
  from assms have "timers_inv (log_event (TimeoutCallbackInvoked i e) s)"
    by (auto simp: poller_inv_def timers_inv_def idle_def log_event_def is_timeout_of_def)
  moreover from assms have "tally_inv (log_event (TimeoutCallbackInvoked i e) s)"
    by (auto simp: poller_inv_def tally_inv_def idle_def log_event_def is_timeout_of_def)
  moreover from assms have "cb_inv (log_event (TimeoutCallbackInvoked i e) s)"
    by (auto simp: poller_inv_def cb_inv_def log_event_def before_cb_append)
  ultimately show ?thesis by (simp add: poller_inv_def)
qed

lemma inv_schedule:
  assumes "poller_inv s" and "idle i s"
  shows "poller_inv (s\<lparr>next_handle := Suc (next_handle s),
               timers := timers s @ [(next_handle s, due, i, delay)],
               pollingElements :=
                 (pollingElements s)[i := (pollingElements s ! i)\<lparr>winTimeout := Some (next_handle s)\<rparr>]\<rparr>)"
    (is "poller_inv ?s'")
proof -
  from assms(1) have t: "timers_inv s" and y: "tally_inv s" and c: "cb_inv s"
    by (simp_all add: poller_inv_def)
  from assms(2) have i: "i < length (pollingElements s)"
    and free: "\<forall>tm \<in> set (timers s). timer_elem tm \<noteq> i"
    and rest: "i \<notin> set (successfullyPolledElements s)" "timeouts_of i (trace s) = 0"
    by (simp_all add: idle_def)
  from t have fresh: "next_handle s \<notin> fst ` set (timers s)"
    by (auto simp: timers_inv_def)
  have "distinct (map fst (timers ?s'))"
    using t fresh by (simp add: timers_inv_def)
  moreover have "\<forall>tm \<in> set (timers ?s').
        0 < fst tm \<and> fst tm < next_handle ?s' \<and>
        timer_elem tm < length (pollingElements ?s') \<and>
        winTimeout (pollingElements ?s' ! timer_elem tm) = Some (fst tm) \<and>
        timer_elem tm \<notin> set (successfullyPolledElements ?s') \<and>
        timeouts_of (timer_elem tm) (trace ?s') = 0"
  proof
    fix tm assume "tm \<in> set (timers ?s')"
    then consider "tm \<in> set (timers s)" | "tm = (next_handle s, due, i, delay)" by auto
    then show "0 < fst tm \<and> fst tm < next_handle ?s' \<and>
        timer_elem tm < length (pollingElements ?s') \<and>
        winTimeout (pollingElements ?s' ! timer_elem tm) = Some (fst tm) \<and>
        timer_elem tm \<notin> set (successfullyPolledElements ?s') \<and>
        timeouts_of (timer_elem tm) (trace ?s') = 0"
    proof cases
      case 1
      with t free show ?thesis by (auto simp: timers_inv_def nth_list_update)
    next
      case 2
      from t have "0 < next_handle s" by (simp add: timers_inv_def)
      with 2 i rest show ?thesis by (simp add: timer_elem_def)
    qed
  qed
  moreover from t have "0 < next_handle ?s'" by simp
  ultimately have "timers_inv ?s'" by (simp add: timers_inv_def)
  moreover from y have "tally_inv ?s'" by (simp add: tally_inv_def)
  moreover from c have "cb_inv ?s'" by (simp add: cb_inv_def)
  ultimately show ?thesis by (simp add: poller_inv_def)
qed

lemma poll_unfold:
  assumes "i < length (pollingElements s)"
  defines "e \<equiv> pollingElements s ! i"
  defines "started \<equiv> (case startedAt e of Some t \<Rightarrow> if t \<noteq> 0 then t else now s | None \<Rightarrow> now s)"
  defines "s1 \<equiv> s\<lparr>pollingElements := (pollingElements s)[i := e\<lparr>startedAt := Some started\<rparr>]\<rparr>"
  shows "poll st i delay s =
     (if maxDuration e \<noteq> 0 \<and> started + maxDuration e < now s then
        element_destroy i
          (if timeoutCallback_is_function st
           then log_event (TimeoutCallbackInvoked i (elm e)) s1 else s1)
      else
        s1\<lparr>next_handle := Suc (next_handle s1),
           timers := timers s1 @ [(next_handle s1, now s1 + \<lfloor>max 0 delay\<rfloor>, i, delay)],
           pollingElements :=
             (pollingElements s1)[i := (pollingElements s1 ! i)\<lparr>winTimeout := Some (next_handle s1)\<rparr>]\<rparr>)"
  using assms(1)
  by (simp add: poll_def Let_def setTimeout_def e_def started_def s1_def)

lemma inv_poll:
  assumes "poller_inv s" and "idle i s"
  shows "poller_inv (poll st i delay s)"
proof -
  from assms(2) have i: "i < length (pollingElements s)" by (simp add: idle_def)
  define e where "e = pollingElements s ! i"
  define started where
    "started = (case startedAt e of Some t \<Rightarrow> if t \<noteq> 0 then t else now s | None \<Rightarrow> now s)"
  define s1 where
    "s1 = s\<lparr>pollingElements := (pollingElements s)[i := e\<lparr>startedAt := Some started\<rparr>]\<rparr>"
  have inv1: "poller_inv s1"
    unfolding s1_def e_def by (rule inv_startedAt_update [OF assms(1) i])
  have idle1: "idle i s1"
    unfolding s1_def e_def by (rule idle_startedAt_update [OF assms(2)])
  note unf = poll_unfold [OF i, of st delay, folded e_def, folded started_def, folded s1_def]
  show ?thesis
  proof (cases "maxDuration e \<noteq> 0 \<and> started + maxDuration e < now s")
    case True
    have "poller_inv (if timeoutCallback_is_function st
           then log_event (TimeoutCallbackInvoked i (elm e)) s1 else s1)"
      using inv1 idle1 by (simp add: inv_log_timeout)
    then show ?thesis using True unf by (simp add: inv_element_destroy)
  next
    case False
    then show ?thesis using unf inv_schedule [OF inv1 idle1] by auto
  qed
qed

text \<open>
A success of an idle element keeps the invariant, once all elements exist.
\<close>

lemma tally_bound:
  assumes "tally_inv s"
  shows "length (successfullyPolledElements s) \<le> length (pollingElements s)"
    and "i < length (pollingElements s) \<Longrightarrow> i \<notin> set (successfullyPolledElements s) \<Longrightarrow>
         length (successfullyPolledElements s) < length (pollingElements s)"
proof -
  let ?succ = "successfullyPolledElements s" and ?n = "length (pollingElements s)"
  from assms have d: "distinct ?succ" and sub: "set ?succ \<subseteq> {..<?n}"
    by (auto simp: tally_inv_def)
  have len: "length ?succ = card (set ?succ)"
    using d by (simp add: distinct_card)
  from sub show "length ?succ \<le> ?n"
    unfolding len using card_mono [of "{..<?n}" "set ?succ"] by simp
  assume "i < ?n" and "i \<notin> set ?succ"
  with sub have "set ?succ \<subset> {..<?n}" by auto
  then show "length ?succ < ?n"
    unfolding len using psubset_card_mono [of "{..<?n}" "set ?succ"] by simp
qed

lemma tally_complete:
  assumes "tally_inv s"
    and "length (successfullyPolledElements s) = length (pollingElements s)"
  shows "set (successfullyPolledElements s) = {..<length (pollingElements s)}"
proof -
  let ?succ = "successfullyPolledElements s" and ?n = "length (pollingElements s)"
  from assms(1) have d: "distinct ?succ" and sub: "set ?succ \<subseteq> {..<?n}"
    by (auto simp: tally_inv_def)
  have "card (set ?succ) = card {..<?n}"
    using d assms(2) by (simp add: distinct_card)
  with sub show ?thesis by (simp add: card_subset_eq)
qed

lemma inv_success:
  assumes "poller_inv s" and "idle i s" and "length (pollingElements s) = elements_length s"
  shows "poller_inv (successCallback i (log_event (Evaluated i True) s))"
proof -
  let ?s1 = "s\<lparr>trace := trace s @ [Evaluated i True],
               successfullyPolledElements := successfullyPolledElements s @ [i]\<rparr>"
  from assms(1) have t: "timers_inv s" and y: "tally_inv s" and c: "cb_inv s"
    by (simp_all add: poller_inv_def)
  from assms(2) have i: "i < length (pollingElements s)"
    and free: "\<forall>tm \<in> set (timers s). timer_elem tm \<noteq> i"
    and notin: "i \<notin> set (successfullyPolledElements s)" and nt: "timeouts_of i (trace s) = 0"
    by (simp_all add: idle_def)
  have t1: "timers_inv ?s1"
    using t free by (auto simp: timers_inv_def is_timeout_of_def)
  have y1: "tally_inv ?s1"
    using y i notin nt by (auto simp: tally_inv_def is_timeout_of_def)
  from tally_bound(2) [OF y i notin] assms(3)
  have short: "length (successfullyPolledElements s) < elements_length s" by simp
  with c have nocb: "CbInvoked \<notin> set (trace s)"
    by (simp add: cb_inv_def count_list_0_iff)
  show ?thesis
  proof (cases "Suc (length (successfullyPolledElements s)) = elements_length s")
    case True
    have eq: "successCallback i (log_event (Evaluated i True) s) = log_event CbInvoked ?s1"
      using True by (simp add: successCallback_def log_event_def Let_def)
    have all: "set (successfullyPolledElements ?s1) = {..<length (pollingElements ?s1)}"
      by (rule tally_complete [OF y1]) (use True assms(3) in simp)
    have "\<forall>j < elements_length s. Evaluated j True \<in> set (trace ?s1)"
    proof (intro allI impI)
      fix j assume "j < elements_length s"
      with all assms(3) have "j \<in> set (successfullyPolledElements ?s1)" by simp
      with y1 show "Evaluated j True \<in> set (trace ?s1)" by (simp add: tally_inv_def)
    qed
    then have "cb_inv (log_event CbInvoked ?s1)"
      using nocb True by (simp add: cb_inv_def log_event_def before_cb_snoc2)
    moreover have "timers_inv (log_event CbInvoked ?s1)"
      using t1 by (auto simp: timers_inv_def log_event_def is_timeout_of_def)
    moreover have "tally_inv (log_event CbInvoked ?s1)"
      using y1 by (auto simp: tally_inv_def log_event_def is_timeout_of_def)
    ultimately show ?thesis by (simp add: eq poller_inv_def)
  next
    case False
    have eq: "successCallback i (log_event (Evaluated i True) s) = ?s1"
      using False by (simp add: successCallback_def log_event_def Let_def)
    have "cb_inv ?s1"
      using c nocb False short by (simp add: cb_inv_def)
    with t1 y1 show ?thesis by (simp add: eq poller_inv_def)
  qed
qed

text \<open>
What the primitives leave unchanged.
\<close>

lemma element_destroy_frame [simp]:
  "pollingElements (element_destroy i s) = pollingElements s"
  "successfullyPolledElements (element_destroy i s) = successfullyPolledElements s"
  "elements_length (element_destroy i s) = elements_length s"
  "trace (element_destroy i s) = trace s"
  "now (element_destroy i s) = now s"
  by (simp_all add: element_destroy_def clearTimeout_def split: option.splits)

lemma fold_element_destroy_frame [simp]:
  "pollingElements (fold element_destroy is s) = pollingElements s"
  "successfullyPolledElements (fold element_destroy is s) = successfullyPolledElements s"
  "elements_length (fold element_destroy is s) = elements_length s"
  "trace (fold element_destroy is s) = trace s"
  "now (fold element_destroy is s) = now s"
  by (induction "is" arbitrary: s) simp_all

lemma inv_fold_element_destroy: "poller_inv s \<Longrightarrow> poller_inv (fold element_destroy is s)"
  by (induction "is" arbitrary: s) (simp_all add: inv_element_destroy)

lemma idle_fold_element_destroy: "idle i s \<Longrightarrow> idle i (fold element_destroy is s)"
  by (induction "is" arbitrary: s) (simp_all add: idle_element_destroy)

lemma inv_handle_destroy: "poller_inv s \<Longrightarrow> poller_inv (handle_destroy s)"
  unfolding handle_destroy_def
  by (intro inv_fold_element_destroy inv_log_quiet) (simp_all add: quiet_def)

lemma idle_handle_destroy: "idle i s \<Longrightarrow> idle i (handle_destroy s)"
  unfolding handle_destroy_def
  by (intro idle_fold_element_destroy idle_log_quiet) (simp_all add: quiet_def)

lemma handle_destroy_frame [simp]:
  "pollingElements (handle_destroy s) = pollingElements s"
  "successfullyPolledElements (handle_destroy s) = successfullyPolledElements s"
  "elements_length (handle_destroy s) = elements_length s"
  "trace (handle_destroy s) = trace s @ [DestroyInvoked]"
  "now (handle_destroy s) = now s"
  by (simp_all add: handle_destroy_def log_event_def)

lemma log_event_frame [simp]:
  "pollingElements (log_event ev s) = pollingElements s"
  "successfullyPolledElements (log_event ev s) = successfullyPolledElements s"
  "elements_length (log_event ev s) = elements_length s"
  "trace (log_event ev s) = trace s @ [ev]"
  "now (log_event ev s) = now s"
  "timers (log_event ev s) = timers s"
  "next_handle (log_event ev s) = next_handle s"
  by (simp_all add: log_event_def)

lemma poll_length [simp]:
  "length (pollingElements (poll st i delay s)) = length (pollingElements s)"
  "elements_length (poll st i delay s) = elements_length s"
  by (simp_all add: poll_def Let_def setTimeout_def split: prod.splits)

lemma successCallback_length [simp]:
  "length (pollingElements (successCallback i s)) = length (pollingElements s)"
  "elements_length (successCallback i s) = elements_length s"
  by (simp_all add: successCallback_def Let_def)

text \<open>
Every step of a session keeps the invariant.
\<close>

definition ready :: "poller_state \<Rightarrow> bool" where
  "ready s \<longleftrightarrow> poller_inv s \<and> length (pollingElements s) = elements_length s"

lemma ready_timer_callback:
  assumes "ready s" and "idle i s"
  shows "ready (timer_callback env st i delay s)"
proof -
  from assms(2) have i: "i < length (pollingElements s)" by (simp add: idle_def)
  define expr where "expr = elm (pollingElements s ! i)"
  define s1 where "s1 = (case expr of
       JFun f \<Rightarrow> if fn_destroys env f (now s) then handle_destroy s else s
     | _ \<Rightarrow> s)"
  have r1: "poller_inv s1" and i1: "idle i s1"
    and l1: "length (pollingElements s1) = elements_length s1"
    using assms
    by (auto simp: s1_def ready_def inv_handle_destroy idle_handle_destroy split: jsval.splits)
  have unf: "timer_callback env st i delay s =
      (case expressionValidator env expr (now s) of
         Inl ex \<Rightarrow> log_event (Uncaught i ex) s1
       | Inr True \<Rightarrow> successCallback i (log_event (Evaluated i True) s1)
       | Inr False \<Rightarrow> poll st i (delay * multiplier st) (log_event (Evaluated i False) s1))"
    unfolding s1_def expr_def timer_callback_def Let_def using i by simp
  show ?thesis
  proof (cases "expressionValidator env expr (now s)")
    case (Inl ex)
    then show ?thesis using unf r1 l1
      by (simp add: ready_def inv_log_quiet quiet_def)
  next
    case (Inr b)
    show ?thesis
    proof (cases b)
      case True
      with Inr unf inv_success [OF r1 i1 l1] l1 show ?thesis by (simp add: ready_def)
    next
      case False
      have "poller_inv (log_event (Evaluated i False) s1)" "idle i (log_event (Evaluated i False) s1)"
        using r1 i1 by (simp_all add: inv_log_quiet idle_log_quiet quiet_def)
      then have "poller_inv (poll st i (delay * multiplier st) (log_event (Evaluated i False) s1))"
        by (rule inv_poll)
      with Inr False unf l1 show ?thesis by (simp add: ready_def)
    qed
  qed
qed

lemma find_handle:
  "find (\<lambda>tm. fst tm = h) tms = Some tm \<Longrightarrow> tm \<in> set tms \<and> fst tm = h"
  by (induction tms) (auto split: if_splits)

lemma ready_fire:
  assumes "ready s"
  shows "ready (fire env st h t s)"
proof (cases "find (\<lambda>tm. fst tm = h) (timers s)")
  case None
  with assms show ?thesis by (simp add: fire_def)
next
  case (Some tm)
  obtain h' due i delay where tm: "tm = (h', due, i, delay)" by (cases tm)
  from find_handle [OF Some] tm have mem: "(h, due, i, delay) \<in> set (timers s)" by auto
  let ?s' = "s\<lparr>now := t, timers := filter (\<lambda>tm. fst tm \<noteq> h) (timers s)\<rparr>"
  from assms have t: "timers_inv s" by (simp add: ready_def poller_inv_def)
  have poller_inv': "poller_inv ?s'"
    using assms inv_filter_timers [of "s\<lparr>now := t\<rparr>" "\<lambda>tm. fst tm \<noteq> h"]
    by (simp add: ready_def)
  have idle': "idle i ?s'"
  proof -
    from t mem have props: "i < length (pollingElements s)"
      "winTimeout (pollingElements s ! i) = Some h"
      "i \<notin> set (successfullyPolledElements s)" "timeouts_of i (trace s) = 0"
      by (auto simp: timers_inv_def timer_elem_def)
    have "timer_elem tm' \<noteq> i" if "tm' \<in> set (timers s)" "fst tm' \<noteq> h" for tm'
    proof
      assume "timer_elem tm' = i"
      with t that(1) props(2) have "fst tm' = h" by (auto simp: timers_inv_def)
      with that(2) show False by simp
    qed
    with props show ?thesis by (auto simp: idle_def)
  qed
  have "ready ?s'" using poller_inv' assms by (simp add: ready_def)
  from ready_timer_callback [OF this idle'] Some tm assms show ?thesis
    by (simp add: fire_def)
qed

lemma ready_step: "ready s \<Longrightarrow> ready (step env st ev s)"
  by (cases ev) (simp_all add: ready_fire, simp add: ready_def inv_handle_destroy)

lemma ready_exec: "ready s \<Longrightarrow> ready (exec env st evs s)"
  unfolding exec_def by (induction evs arbitrary: s) (simp_all add: ready_step)

lemma ready_tick: "ready s \<Longrightarrow> ready (tick env st s)"
  by (auto simp: tick_def ready_fire split: option.splits)

lemma ready_run_timers: "ready s \<Longrightarrow> ready (run_timers env st n s)"
  by (induction n arbitrary: s) (simp_all add: ready_tick)

text \<open>
The fake clock is one of the schedules.
\<close>

lemma exec_append: "exec env st (evs @ evs') s = exec env st evs' (exec env st evs s)"
  by (simp add: exec_def)

lemma tick_is_step: "\<exists>evs. tick env st s = exec env st evs s"
proof (cases "earliest (timers s)")
  case None
  then have "tick env st s = exec env st [] s" by (simp add: tick_def exec_def)
  then show ?thesis ..
next
  case (Some tm)
  obtain h due i delay where "tm = (h, due, i, delay)" by (cases tm)
  with Some have "tick env st s = exec env st [TimerFires h (max (now s) due)] s"
    by (simp add: tick_def exec_def)
  then show ?thesis ..
qed

lemma run_timers_is_exec: "\<exists>evs. run_timers env st n s = exec env st evs s"
proof (induction n arbitrary: s)
  case 0
  have "run_timers env st 0 s = exec env st [] s" by (simp add: exec_def)
  then show ?case ..
next
  case (Suc n)
  from tick_is_step obtain evs where a: "tick env st s = exec env st evs s" by blast
  from Suc obtain evs' where
    b: "run_timers env st n (exec env st evs s) = exec env st evs' (exec env st evs s)"
    by blast
  from a b have "run_timers env st (Suc n) s = exec env st (evs @ evs') s"
    by (simp add: exec_append)
  then show ?case ..
qed

text \<open>
The session that \<open>poller\<close> returns.
\<close>

lemma inv_track:
  assumes "poller_inv s" and "length (pollingElements s) < elements_length s"
  shows "poller_inv (track st el s)"
proof -
  let ?s' = "s\<lparr>pollingElements := pollingElements s @ [createPollingElement el (timeout st)]\<rparr>"
  from assms(1) have t: "timers_inv s" and y: "tally_inv s" and c: "cb_inv s"
    by (simp_all add: poller_inv_def)
  have "timers_inv ?s'"
    using t by (auto simp: timers_inv_def nth_append)
  moreover have "tally_inv ?s'"
    using y assms(2) by (auto simp: tally_inv_def less_Suc_eq)
  moreover have "cb_inv ?s'"
    using c by (simp add: cb_inv_def)
  ultimately have poller_inv': "poller_inv ?s'" by (simp add: poller_inv_def)
  have "\<forall>tm \<in> set (timers s). timer_elem tm \<noteq> length (pollingElements s)"
    using t by (auto simp: timers_inv_def)
  moreover have "length (pollingElements s) \<notin> set (successfullyPolledElements s)"
    using y by (auto simp: tally_inv_def)
  moreover have "timeouts_of (length (pollingElements s)) (trace s) = 0"
    using y by (auto simp: tally_inv_def)
  ultimately have "idle (length (pollingElements s)) ?s'"
    by (simp add: idle_def)
  from inv_poll [OF poller_inv' this] show ?thesis by (simp add: track_def)
qed

lemma track_length [simp]:
  "length (pollingElements (track st el s)) = Suc (length (pollingElements s))"
  "elements_length (track st el s) = elements_length s"
  by (simp_all add: track_def)

lemma inv_fold_track:
  "poller_inv s \<Longrightarrow> length (pollingElements s) + length els \<le> elements_length s \<Longrightarrow>
   poller_inv (fold (track st) els s) \<and>
   length (pollingElements (fold (track st) els s)) = length (pollingElements s) + length els \<and>
   elements_length (fold (track st) els s) = elements_length s"
proof (induction els arbitrary: s)
  case Nil
  then show ?case by simp
next
  case (Cons el els)
  from Cons.prems have "poller_inv (track st el s)" by (intro inv_track) simp_all
  from Cons.IH [OF this] Cons.prems(2) show ?case by simp
qed

lemma ready_poller: "ready (poller st elements t0)"
proof -
  let ?s0 = "\<lparr>now = t0, next_handle = 1, timers = [], pollingElements = [],
        successfullyPolledElements = [], elements_length = length elements, trace = []\<rparr>"
  have "poller_inv ?s0"
    by (simp add: poller_inv_def timers_inv_def tally_inv_def cb_inv_def)
  from inv_fold_track [OF this, of elements st] show ?thesis
    by (simp add: ready_def poller_def)
qed

lemma poller_length [simp]: "elements_length (poller st elements t0) = length elements"
proof -
  let ?s0 = "\<lparr>now = t0, next_handle = 1, timers = [], pollingElements = [],
        successfullyPolledElements = [], elements_length = length elements, trace = []\<rparr>"
  have "poller_inv ?s0"
    by (simp add: poller_inv_def timers_inv_def tally_inv_def cb_inv_def)
  from inv_fold_track [OF this, of elements st] show ?thesis
    by (simp add: poller_def)
qed

lemma elements_length_timer_callback [simp]:
  "elements_length (timer_callback env st i delay s) = elements_length s"
proof (cases "i < length (pollingElements s)")
  case True
  define s1 where "s1 = (case elm (pollingElements s ! i) of
       JFun f \<Rightarrow> if fn_destroys env f (now s) then handle_destroy s else s
     | _ \<Rightarrow> s)"
  have l1: "elements_length s1 = elements_length s"
    by (simp add: s1_def split: jsval.splits)
  have unf: "timer_callback env st i delay s =
      (case expressionValidator env (elm (pollingElements s ! i)) (now s) of
         Inl ex \<Rightarrow> log_event (Uncaught i ex) s1
       | Inr True \<Rightarrow> successCallback i (log_event (Evaluated i True) s1)
       | Inr False \<Rightarrow> poll st i (delay * multiplier st) (log_event (Evaluated i False) s1))"
    unfolding s1_def timer_callback_def Let_def using True by simp
  show ?thesis unfolding unf using l1 by (simp split: sum.splits bool.splits)
next
  case False
  then show ?thesis by (simp add: timer_callback_def)
qed

lemma elements_length_fire [simp]:
  "elements_length (fire env st h t s) = elements_length s"
  by (simp add: fire_def split: option.splits prod.splits)

lemma elements_length_step [simp]:
  "elements_length (step env st ev s) = elements_length s"
  by (cases ev) simp_all

lemma elements_length_exec [simp]:
  "elements_length (exec env st evs s) = elements_length s"
  unfolding exec_def by (induction evs arbitrary: s) simp_all

lemma elements_length_tick [simp]:
  "elements_length (tick env st s) = elements_length s"
  by (simp add: tick_def split: option.splits prod.splits)

lemma elements_length_run_timers [simp]:
  "elements_length (run_timers env st n s) = elements_length s"
  by (induction n arbitrary: s) simp_all

lemma ready_all_succeeded:
  assumes "ready s" and "\<forall>i < elements_length s. Evaluated i True \<in> set (trace s)"
  shows "length (successfullyPolledElements s) = elements_length s"
proof -
  let ?succ = "successfullyPolledElements s" and ?n = "elements_length s"
  from assms(1) have y: "tally_inv s" and len: "length (pollingElements s) = ?n"
    by (simp_all add: ready_def poller_inv_def)
  from y len have sub: "set ?succ \<subseteq> {..<?n}" and d: "distinct ?succ"
    by (auto simp: tally_inv_def)
  from y assms(2) have "{..<?n} \<subseteq> set ?succ"
    by (auto simp: tally_inv_def)
  with sub have "set ?succ = {..<?n}" by auto
  then have "card (set ?succ) = ?n" by simp
  with d show ?thesis by (simp add: distinct_card)
qed

lemma ready_cb_facts:
  assumes "ready s"
  shows "count_list (trace s) CbInvoked \<le> 1"
    and "CbInvoked \<in> set (trace s) \<Longrightarrow> i < elements_length s \<Longrightarrow>
         Evaluated i True \<in> set (before_cb (trace s))"
    and "0 < elements_length s \<Longrightarrow> \<forall>i < elements_length s. Evaluated i True \<in> set (trace s) \<Longrightarrow>
         count_list (trace s) CbInvoked = 1"
    and "elements_length s = 0 \<Longrightarrow> CbInvoked \<notin> set (trace s)"
proof -
  from assms have c: "cb_inv s" by (simp add: ready_def poller_inv_def)
  from c show "count_list (trace s) CbInvoked \<le> 1" by (simp add: cb_inv_def)
  from c show "CbInvoked \<in> set (trace s) \<Longrightarrow> i < elements_length s \<Longrightarrow>
         Evaluated i True \<in> set (before_cb (trace s))"
    by (simp add: cb_inv_def)
  show "count_list (trace s) CbInvoked = 1"
    if "0 < elements_length s" "\<forall>i < elements_length s. Evaluated i True \<in> set (trace s)"
  proof -
    from ready_all_succeeded [OF assms that(2)] that(1)
    have "length (successfullyPolledElements s) = elements_length s \<and>
        successfullyPolledElements s \<noteq> []" by auto
    with c show ?thesis by (simp add: cb_inv_def)
  qed
  show "CbInvoked \<notin> set (trace s)" if "elements_length s = 0"
  proof -
    from assms have "tally_inv s" "length (pollingElements s) = elements_length s"
      by (simp_all add: ready_def poller_inv_def)
    with that have "successfullyPolledElements s = []"
      by (cases "successfullyPolledElements s") (auto simp: tally_inv_def)
    with c show ?thesis by (simp add: cb_inv_def count_list_0_iff)
  qed
qed

section \<open>Poller: the success callback\<close>



text \<open>
  C8 says that \<open>poller\<close> with an empty list of conditions invokes the success callback
  exactly once, on the next tick.  The callback is only ever invoked from the success of
  an element, and there is none: nothing is invoked and no timer is set.
\<close>

theorem poller_empty_counterexample:
  "trace (poller default_settings [] 0) = [] \<and>
   trace (run_timers two_conditions_env default_settings 1 (poller default_settings [] 0)) = [] \<and>
   count_list (trace (run_timers two_conditions_env default_settings 1
      (poller default_settings [] 0))) CbInvoked = 0"
  by code_simp

text \<open>
  C8, amended: \<open>poller\<close> with an empty list of conditions never invokes the success
  callback, neither synchronously nor at any later time.
\<close>

theorem poller_empty_never_calls_back:
  "CbInvoked \<notin> set (trace (exec env st evs (poller st [] t0))) \<and>
   CbInvoked \<notin> set (trace (run_timers env st n (poller st [] t0)))"
proof -
  have "ready (exec env st evs (poller st [] t0))" by (intro ready_exec ready_poller)
  moreover have "ready (run_timers env st n (poller st [] t0))"
    by (intro ready_run_timers ready_poller)
  ultimately show ?thesis by (simp add: ready_cb_facts(4))
qed

theorem poller_empty_never_calls_back_witness:
  "CbInvoked \<notin> set (trace (exec two_conditions_env default_settings [DestroyCalled, TimerFires 1 50]
      (poller default_settings [] 0))) \<and>
   trace (exec two_conditions_env default_settings [DestroyCalled, TimerFires 1 50]
      (poller default_settings [] 0)) = [DestroyInvoked]"
proof -
  have "trace (exec two_conditions_env default_settings [DestroyCalled, TimerFires 1 50]
      (poller default_settings [] 0)) = [DestroyInvoked]"
    by code_simp
  with poller_empty_never_calls_back [of two_conditions_env default_settings
      "[DestroyCalled, TimerFires 1 50]" 0 0]
  show ?thesis by simp
qed

section \<open>Poller: destroy\<close>

text \<open>
  C2 says that once \<open>destroy()\<close> has been called no callback of the session fires, also
  for timers in flight, because a liveness flag is checked before any callback.  The code
  has no such flag: \<open>destroy()\<close> clears the timers that are pending.  A timer whose
  callback is running is not pending, so when the condition function of that callback
  calls \<open>destroy()\<close> and then returns true, the success callback still fires.
\<close>

theorem poller_destroy_reentrant_counterexample:
  "trace (exec destroying_env default_settings [TimerFires 1 50]
      (poller default_settings [JFun 0] 0)) =
    [DestroyInvoked, Evaluated 0 True, CbInvoked]"
  by code_simp

text \<open>
\<open>destroy()\<close> between timer callbacks clears every active timer of the session.
\<close>

definition kept_by :: "polling_element list \<Rightarrow> nat \<Rightarrow> timer \<Rightarrow> bool" where
  "kept_by pes i tm \<longleftrightarrow>
     (i < length pes \<longrightarrow>
       (case winTimeout (pes ! i) of Some h \<Rightarrow> h = 0 \<or> fst tm \<noteq> h | None \<Rightarrow> True))"

lemma timers_element_destroy:
  "timers (element_destroy i s) = filter (kept_by (pollingElements s) i) (timers s)"
  by (auto simp: element_destroy_def clearTimeout_def kept_by_def split: option.splits
      intro: filter_cong)

lemma timers_fold_element_destroy:
  "timers (fold element_destroy is s) =
     filter (\<lambda>tm. \<forall>i \<in> set is. kept_by (pollingElements s) i tm) (timers s)"
proof (induction "is" arbitrary: s)
  case Nil
  show ?case by simp
next
  case (Cons i "is")
  show ?case
    by (simp add: Cons.IH timers_element_destroy)
qed

lemma handle_destroy_clears:
  assumes "timers_inv s"
  shows "timers (handle_destroy s) = []"
proof -
  have "\<not> (\<forall>i \<in> set [0..<length (pollingElements s)]. kept_by (pollingElements s) i tm)"
    if "tm \<in> set (timers s)" for tm
  proof -
    from assms that have "timer_elem tm < length (pollingElements s)"
      and "winTimeout (pollingElements s ! timer_elem tm) = Some (fst tm)" and "0 < fst tm"
      by (auto simp: timers_inv_def)
    then have "\<not> kept_by (pollingElements s) (timer_elem tm) tm"
      by (simp add: kept_by_def)
    with \<open>timer_elem tm < length (pollingElements s)\<close> show ?thesis by auto
  qed
  then show ?thesis
    by (simp add: handle_destroy_def timers_fold_element_destroy filter_empty_conv)
qed

lemma no_timers_step:
  assumes "timers s = []"
  shows "timers (step env st ev s) = [] \<and> callbacks (trace (step env st ev s)) = callbacks (trace s)"
proof (cases ev)
  case (TimerFires h t)
  with assms show ?thesis by (simp add: fire_def)
next
  case DestroyCalled
  have "timers (handle_destroy s) = []"
    using assms by (simp add: handle_destroy_def timers_fold_element_destroy)
  with DestroyCalled show ?thesis by (simp add: callbacks_def)
qed

lemma no_timers_exec:
  "timers s = [] \<Longrightarrow>
   timers (exec env st evs s) = [] \<and> callbacks (trace (exec env st evs s)) = callbacks (trace s)"
  unfolding exec_def
proof (induction evs arbitrary: s)
  case Nil
  then show ?case by simp
next
  case (Cons ev evs)
  from no_timers_step [OF Cons.prems, of env st ev] Cons.IH [of "step env st ev s"]
  show ?case by simp
qed

lemma no_timers_run:
  "timers s = [] \<Longrightarrow> run_timers env st n s = s"
  by (induction n) (simp_all add: tick_def)

text \<open>
  C2, amended: once \<open>destroy()\<close> has been called on the handle between two timer
  callbacks of the session (not from inside a condition function that the session is
  running), no timer of the session is active, whether it was due already or not, and
  nothing the session does follows: no condition is evaluated and no success, aggregate
  or timeout callback fires, under every later schedule and under the fake clock.  The
  code clears the timers; it checks no liveness flag.
\<close>

theorem poller_destroy_between_callbacks:
  fixes env :: env and st :: settings and evs evs' :: "event list" and t0 :: int
    and elements :: "jsval list"
  defines "s \<equiv> handle_destroy (exec env st evs (poller st elements t0))"
  shows "timers s = [] \<and>
         timers (exec env st evs' s) = [] \<and>
         callbacks (trace (exec env st evs' s)) = callbacks (trace s) \<and>
         run_timers env st n s = s"
proof -
  have "ready (exec env st evs (poller st elements t0))"
    by (intro ready_exec ready_poller)
  then have "timers_inv (exec env st evs (poller st elements t0))"
    by (simp add: ready_def poller_inv_def)
  then have none: "timers s = []"
    unfolding s_def by (rule handle_destroy_clears)
  from none no_timers_exec [OF none, of env st evs'] no_timers_run [OF none, of env st n]
  show ?thesis by simp
qed

theorem poller_destroy_between_callbacks_witness:
  "timers (handle_destroy (exec two_conditions_env default_settings [TimerFires 2 1050]
      (poller default_settings [JFun 0, JFun 1] 1000))) = [] \<and>
   trace (exec two_conditions_env default_settings [TimerFires 1 1050, TimerFires 3 1105]
     (handle_destroy (exec two_conditions_env default_settings [TimerFires 2 1050]
      (poller default_settings [JFun 0, JFun 1] 1000)))) = [Evaluated 1 True, DestroyInvoked]"
proof -
  have "trace (exec two_conditions_env default_settings [TimerFires 1 1050, TimerFires 3 1105]
     (handle_destroy (exec two_conditions_env default_settings [TimerFires 2 1050]
      (poller default_settings [JFun 0, JFun 1] 1000)))) = [Evaluated 1 True, DestroyInvoked]"
    by code_simp
  with poller_destroy_between_callbacks [of two_conditions_env default_settings
      "[TimerFires 2 1050]" "[JFun 0, JFun 1]" 1000 "[TimerFires 1 1050, TimerFires 3 1105]" 0]
  show ?thesis by simp
qed

section \<open>Poller: the timeout of an element\<close>







definition explained :: "env \<Rightarrow> jsval list \<Rightarrow> trace_event \<Rightarrow> bool" where
  "explained env elements ev = (case ev of
      Evaluated i b \<Rightarrow> (\<exists>t. expressionValidator env (elements ! i) t = Inr b)
    | Uncaught i ex \<Rightarrow> (\<exists>t. expressionValidator env (elements ! i) t = Inl ex)
    | TimeoutCallbackInvoked i e \<Rightarrow> e = elements ! i
    | _ \<Rightarrow> True)"






lemma successCallback_frame [simp]:
  "timers (successCallback i s) = timers s"
  "pollingElements (successCallback i s) = pollingElements s"
  "now (successCallback i s) = now s"
  "successfullyPolledElements (successCallback i s) = successfullyPolledElements s @ [i]"
  "trace (successCallback i s) =
     trace s @ (if Suc (length (successfullyPolledElements s)) = elements_length s
                then [CbInvoked] else [])"
  by (simp_all add: successCallback_def Let_def log_event_def)

lemma explained_simps [simp]:
  "explained env elements CbInvoked"
  "explained env elements DestroyInvoked"
  by (simp_all add: explained_def)






























text \<open>
  The fake clock fires a timer exactly when it is due.  With a delay below 1 ms a timer
  is due at the time it is set, so the fake clock never advances and the deadline is
  never passed; time has to pass between two polls.
\<close>

lemma fake_clock_stalls_without_delay:
  "now (run_timers never_ready_env no_wait_settings 50 (poller no_wait_settings [JFun 0] 1000)) = 1000 \<and>
   timeouts_of 0 (trace (run_timers never_ready_env no_wait_settings 50
      (poller no_wait_settings [JFun 0] 1000))) = 0 \<and>
   length (timers (run_timers never_ready_env no_wait_settings 50
      (poller no_wait_settings [JFun 0] 1000))) = 1"
  by code_simp



section \<open>Lightweight Poller: the shared deadline\<close>

text \<open>
  The conditions that passed, in the order of the trace.  The invariant of a session:
  handles and conditions of the active timers are distinct; every evaluation in the
  trace is what the environment gives for that condition at that time, which is not
  after the deadline; a condition passes at most once and then has no timer; the list
  \<open>successfulConditions\<close> is as long as the list of the conditions that passed; and
  \<open>callback\<close> has been called once if that list is complete and never otherwise.
\<close>

definition passed_of :: "lite_event \<Rightarrow> nat list" where
  "passed_of ev = (case ev of
      LiteEvaluated i v t \<Rightarrow> if truthy v then [i] else []
    | _ \<Rightarrow> [])"

definition passed :: "lite_event list \<Rightarrow> nat list" where
  "passed tr = concat (map passed_of tr)"




lemma passed_simps [simp]:
  "passed [] = []"
  "passed (tr @ tr') = passed tr @ passed tr'"
  "passed (ev # tr) = passed_of ev @ passed tr"
  by (simp_all add: passed_def)

lemma lite_callbacks_simps [simp]:
  "lite_callbacks [] = 0"
  "lite_callbacks (tr @ tr') = lite_callbacks tr + lite_callbacks tr'"
  "lite_callbacks (ev # tr) = (if is_lite_callback ev then 1 else 0) + lite_callbacks tr"
  by (simp_all add: lite_callbacks_def)
















lemma pollerLite_empty_never_calls_back:
  "lite_callbacks (lite_trace (lite_exec env opts fires (pollerLite env opts [] t0))) = 0"
proof -
  have "lite_fire env opts h t (pollerLite env opts [] t0) = pollerLite env opts [] t0" for h t
    by (simp add: lite_fire_def pollerLite_def)
  then have "lite_exec env opts fires (pollerLite env opts [] t0) = pollerLite env opts [] t0"
    unfolding lite_exec_def by (induction fires) simp_all
  then show ?thesis by (simp add: pollerLite_def)
qed




section \<open>Falsy conditions\<close>

text \<open>
  C9 says that a falsy condition fails fast with a descriptive error in both pollers.
  The full poller does that: the first evaluation throws \<open>Invalid poller expression\<close>
  and the element is not polled again.  \<open>pollerLite\<close> has no such check: for \<open>null\<close>,
  \<open>undefined\<close>, \<open>false\<close> and \<open>0\<close> the lookup \<open>types[typeof condition]\<close> finds nothing,
  the condition counts as satisfied with the result \<open>true\<close>, and \<open>callback\<close> is invoked at
  once.
\<close>

theorem falsy_condition_validation:
  "trace (run_timers two_conditions_env default_settings 1 (poller default_settings [JNull] 0)) =
     [Uncaught 0 InvalidPollerExpression] \<and>
   lite_trace (pollerLite two_conditions_env lite_defaults [JNull] 0) =
     [LiteEvaluated 0 (JBool True) 0, LiteCallback [JBool True]] \<and>
   lite_trace (pollerLite two_conditions_env lite_defaults [JUndefined] 0) =
     [LiteEvaluated 0 (JBool True) 0, LiteCallback [JBool True]] \<and>
   lite_trace (pollerLite two_conditions_env lite_defaults [JBool False] 0) =
     [LiteEvaluated 0 (JBool True) 0, LiteCallback [JBool True]] \<and>
   lite_trace (pollerLite two_conditions_env lite_defaults [JNum 0] 0) =
     [LiteEvaluated 0 (JBool True) 0, LiteCallback [JBool True]]"
  by code_simp

end
